theory Spec2Isabelle
  imports Main "HOL-Library.Sublist" "HOL-Library.Multiset"
begin

section \<open>Python strings\<close>

text \<open>
  Strings are lists of characters with code points below 256. \<open>lower_char\<close> is what
  \<^verbatim>\<open>str.lower()\<close> does to one such character: the ASCII capitals and the Latin-1
  capitals (all of 192..222 but the multiplication sign 215) move up by 32.
\<close>

definition lower_char :: "char \<Rightarrow> char" where
  "lower_char c =
     (let n = (of_char c :: nat)
      in if (65 \<le> n \<and> n \<le> 90) \<or> (192 \<le> n \<and> n \<le> 222 \<and> n \<noteq> 215)
         then char_of (n + 32) else c)"

definition lower :: "string \<Rightarrow> string" where
  "lower s = map lower_char s"

definition startswith :: "string \<Rightarrow> string \<Rightarrow> bool" where
  "startswith s p = (take (length p) s = p)"

text \<open>\<^verbatim>\<open>needle in hay\<close> on strings: a search for the needle at every position.\<close>

fun str_in :: "string \<Rightarrow> string \<Rightarrow> bool" where
  "str_in needle [] = (needle = [])"
| "str_in needle (c # cs) = (startswith (c # cs) needle \<or> str_in needle cs)"

text \<open>\<^verbatim>\<open>str(n)\<close> for an integer: decimal digits, a minus sign for a negative number.\<close>

definition digit :: "nat \<Rightarrow> char" where
  "digit n = ''0123456789'' ! (n mod 10)"

fun str_nat :: "nat \<Rightarrow> string" where
  "str_nat n = (if n < 10 then [digit n] else str_nat (n div 10) @ [digit n])"

definition str_int :: "int \<Rightarrow> string" where
  "str_int i = (if i < 0 then CHR ''-'' # str_nat (nat (- i)) else str_nat (nat i))"

section \<open>Exceptions\<close>

text \<open>
  The exception classes the two programs distinguish, each carrying the text that
  \<^verbatim>\<open>str(e)\<close> gives. \<open>Timeout\<close> and \<open>HTTPError\<close> are subclasses of
  \<open>RequestException\<close> (requests); \<open>TimeoutException\<close> is a subclass of
  \<open>WebDriverException\<close> (selenium); all are subclasses of \<open>Exception\<close>.
\<close>

datatype exn =
    Timeout string
  | HTTPError string
  | RequestException string
  | TimeoutException string
  | WebDriverException string
  | ValueError string
  | AttributeError string
  | Exception string

fun str_exn :: "exn \<Rightarrow> string" where
  "str_exn (Timeout m) = m"
| "str_exn (HTTPError m) = m"
| "str_exn (RequestException m) = m"
| "str_exn (TimeoutException m) = m"
| "str_exn (WebDriverException m) = m"
| "str_exn (ValueError m) = m"
| "str_exn (AttributeError m) = m"
| "str_exn (Exception m) = m"

fun is_Timeout :: "exn \<Rightarrow> bool" where
  "is_Timeout (Timeout m) = True"
| "is_Timeout e = False"

fun is_RequestException :: "exn \<Rightarrow> bool" where
  "is_RequestException (Timeout m) = True"
| "is_RequestException (HTTPError m) = True"
| "is_RequestException (RequestException m) = True"
| "is_RequestException e = False"

fun is_TimeoutException :: "exn \<Rightarrow> bool" where
  "is_TimeoutException (TimeoutException m) = True"
| "is_TimeoutException e = False"

fun is_WebDriverException :: "exn \<Rightarrow> bool" where
  "is_WebDriverException (TimeoutException m) = True"
| "is_WebDriverException (WebDriverException m) = True"
| "is_WebDriverException e = False"

section \<open>The outside world\<close>

text \<open>
  The programs call three libraries that are not part of the repository. What they
  answer is a parameter of the model, so every theorem below holds whatever they answer:
  \<^item> \<open>urlparse\<close>, \<open>urljoin\<close> (urllib.parse): from a parse only the two fields the
    programs read are kept; both functions may raise;
  \<^item> \<open>session_get u k\<close>: what the \<open>k\<close>-th \<^verbatim>\<open>session.get\<close> of \<open>u\<close> within one call of
    \<open>fetch_url_with_retry\<close> gives, a response or an exception (requests);
  \<^item> \<open>browser u\<close>: what loading \<open>u\<close> in the headless browser gives (selenium).
  A response is kept as its status code, the two texts \<^verbatim>\<open>raise_for_status\<close> quotes, and
  what \<^verbatim>\<open>BeautifulSoup(response.content, "html.parser").find_all("a", href=True)\<close>
  followed by \<^verbatim>\<open>link.get("href")\<close> yields on its body (or the exception it raises).
\<close>

record parse_result =
  scheme :: string
  netloc :: string

record response =
  status_code :: int
  reason :: string
  response_url :: string
  hrefs :: "exn + string list"

text \<open>
  The browser variant: \<open>DriverFailed\<close> when \<open>create_driver\<close> raises (no page load is
  attempted), \<open>LoadFailed\<close> when \<^verbatim>\<open>driver.get\<close>, the wait for the body or
  \<^verbatim>\<open>find_elements\<close> raises, \<open>Loaded\<close> with one entry for each \<^verbatim>\<open>a\<close> element: what
  \<^verbatim>\<open>link.get_attribute("href")\<close> gives (a string, \<open>None\<close>, or an exception).
\<close>

datatype page =
    DriverFailed exn
  | LoadFailed exn
  | Loaded "(exn + string option) list"

record world =
  urlparse :: "string \<Rightarrow> exn + parse_result"
  urljoin :: "string \<Rightarrow> string \<Rightarrow> exn + string"
  session_get :: "string \<Rightarrow> nat \<Rightarrow> exn + response"
  browser :: "string \<Rightarrow> page"

section \<open>URL classifier (both files)\<close>

definition is_valid_url :: "world \<Rightarrow> string \<Rightarrow> bool" where
  "is_valid_url W u =
     (case urlparse W u of
        Inl e \<Rightarrow> False
      | Inr result \<Rightarrow> scheme result \<noteq> [] \<and> netloc result \<noteq> [])"

definition is_target_domain :: "world \<Rightarrow> string \<Rightarrow> string \<Rightarrow> bool" where
  "is_target_domain W u target_domain =
     (case urlparse W u of
        Inl e \<Rightarrow> False
      | Inr parsed \<Rightarrow> str_in target_domain (netloc parsed))"

definition is_rbo_domain :: "world \<Rightarrow> string \<Rightarrow> bool" where
  "is_rbo_domain W u =
     (case urlparse W u of
        Inl e \<Rightarrow> False
      | Inr parsed \<Rightarrow> str_in ''rbo.org.uk'' (netloc parsed))"

definition is_mailto_link :: "string \<Rightarrow> bool" where
  "is_mailto_link u = startswith (lower u) ''mailto:''"

definition is_tel_link :: "string \<Rightarrow> bool" where
  "is_tel_link u = startswith (lower u) ''tel:''"

section \<open>Effects\<close>

text \<open>
  Everything the programs do to the outside is appended to one log, in order: the random
  delay before a request, the request itself, a sleep of a whole number of seconds, a
  line printed, a text appended to the output file. Two entries are bookkeeping for the
  properties below: \<open>Claim u\<close> when \<^verbatim>\<open>visited.add(u)\<close> runs, \<open>Fetch u\<close> when the
  fetch of \<open>u\<close> starts (the call of \<open>fetch_url_with_retry\<close>, or \<^verbatim>\<open>driver.get\<close>).
\<close>

datatype event =
    Claim string
  | Fetch string
  | Delay
  | Get string
  | Sleep int
  | Print string
  | FileAppend string

definition write_broken_link_to_file :: "string \<Rightarrow> string \<Rightarrow> event list" where
  "write_broken_link_to_file origin broken_link =
     [FileAppend (''{'' @ origin @ '' >> '' @ broken_link @ ''}'' @ [CHR 0x0A]),
      Print (''{'' @ origin @ '' >> '' @ broken_link @ ''}'')]"

section \<open>The fetcher of crawler.py\<close>

definition MAX_RETRIES :: int where
  "MAX_RETRIES = 3"

text \<open>
  \<^verbatim>\<open>response.raise_for_status()\<close> of requests: an \<open>HTTPError\<close> for a status code in
  400..599 (client error below 500, server error from 500), nothing otherwise.
\<close>

definition raise_for_status :: "response \<Rightarrow> exn + unit" where
  "raise_for_status r =
     (if 400 \<le> status_code r \<and> status_code r < 500
      then Inl (HTTPError (str_int (status_code r) @ '' Client Error: '' @ reason r
                  @ '' for url: '' @ response_url r))
      else if 500 \<le> status_code r \<and> status_code r < 600
      then Inl (HTTPError (str_int (status_code r) @ '' Server Error: '' @ reason r
                  @ '' for url: '' @ response_url r))
      else Inr ())"

text \<open>The body of the \<^verbatim>\<open>try\<close> of one attempt, after the random delay.\<close>

definition attempt_get :: "world \<Rightarrow> string \<Rightarrow> int \<Rightarrow> exn + response" where
  "attempt_get W u attempt =
     (case session_get W u (nat attempt) of
        Inl e \<Rightarrow> Inl e
      | Inr r \<Rightarrow> (case raise_for_status r of Inl e \<Rightarrow> Inl e | Inr _ \<Rightarrow> Inr r))"

text \<open>The two messages printed before a retry (lines 79 and 87).\<close>

definition timeout_message :: "string \<Rightarrow> int \<Rightarrow> int \<Rightarrow> string" where
  "timeout_message u attempt retries =
     ''Timeout for '' @ u @ '', retrying in '' @ str_int (2 ^ nat attempt)
     @ '' seconds... (Attempt '' @ str_int (attempt + 1) @ ''/'' @ str_int retries @ '')''"

definition error_message :: "exn \<Rightarrow> string \<Rightarrow> int \<Rightarrow> int \<Rightarrow> string" where
  "error_message e u attempt retries =
     ''Error for '' @ u @ '': '' @ str_exn e @ '', retrying in '' @ str_int (2 ^ nat attempt)
     @ '' seconds... (Attempt '' @ str_int (attempt + 1) @ ''/'' @ str_int retries @ '')''"

text \<open>
  The loop \<^verbatim>\<open>for attempt in range(retries)\<close>, from \<open>attempt\<close> on. The result is the
  exception raised (\<open>Inl\<close>), the response returned (\<open>Inr (Some r)\<close>), or \<open>Inr None\<close>
  when the loop ends without a \<^verbatim>\<open>return\<close>; with it come the effects, in order.
  The first handler catches \<open>Timeout\<close>, the second every other \<open>RequestException\<close>
  (the \<open>HTTPError\<close> of \<open>raise_for_status\<close> among them); any other exception leaves
  the function at once.
\<close>

function fetch_attempts ::
  "world \<Rightarrow> string \<Rightarrow> int \<Rightarrow> int \<Rightarrow> (exn + response option) \<times> event list" where
  "fetch_attempts W u retries attempt =
     (if attempt < retries then
        (case attempt_get W u attempt of
           Inr r \<Rightarrow> (Inr (Some r), [Delay, Get u])
         | Inl e \<Rightarrow>
             if is_Timeout e then
               (if attempt < retries - 1 then
                  (let (res, evs) = fetch_attempts W u retries (attempt + 1)
                   in (res, [Delay, Get u, Print (timeout_message u attempt retries),
                             Sleep (2 ^ nat attempt)] @ evs))
                else (Inl e, [Delay, Get u]))
             else if is_RequestException e then
               (if attempt < retries - 1 then
                  (let (res, evs) = fetch_attempts W u retries (attempt + 1)
                   in (res, [Delay, Get u, Print (error_message e u attempt retries),
                             Sleep (2 ^ nat attempt)] @ evs))
                else (Inl e, [Delay, Get u]))
             else (Inl e, [Delay, Get u]))
      else (Inr None, []))"
  by pat_completeness auto
termination
  by (relation "measure (\<lambda>(W, u, retries, attempt). nat (retries - attempt))") auto

declare fetch_attempts.simps [simp del]

definition fetch_url_with_retry ::
  "world \<Rightarrow> string \<Rightarrow> int \<Rightarrow> (exn + response option) \<times> event list" where
  "fetch_url_with_retry W u retries = fetch_attempts W u retries 0"

section \<open>Crawl tasks and the shared state\<close>

text \<open>
  One call of \<open>crawl_url\<close> runs in a thread of its own (the root call in the main
  thread, every other in a worker of a \<open>ThreadPoolExecutor\<close>). A task is the call's
  arguments together with the place it has reached:
  \<^item> \<open>Pending\<close>: submitted, before the depth test and the block under \<open>visited_lock\<close>;
  \<^item> \<open>Claimed\<close>: after \<^verbatim>\<open>visited.add(url)\<close>, before the domain test and the fetch;
  \<^item> \<open>Extracting hs ltc\<close>: in the loop over the links of the page, \<open>hs\<close> still to
    come, \<open>ltc\<close> the list \<open>links_to_crawl\<close> so far;
  \<^item> \<open>Submitting ltc futs\<close>: in the loop over \<open>links_to_crawl\<close>, \<open>ltc\<close> still to
    come, \<open>futs\<close> the tasks submitted so far (the list \<open>futures\<close>);
  \<^item> \<open>Joining futs\<close>: in \<^verbatim>\<open>concurrent.futures.wait(futures)\<close>;
  \<^item> \<open>Done\<close>: returned.
  The type \<open>'h\<close> is what the page gives for one link: a string in crawler.py, the
  outcome of \<^verbatim>\<open>get_attribute("href")\<close> in crawler_selenium.py.
  \<open>max_workers\<close> and \<open>max_depth\<close> are handed unchanged from call to call, as
  \<open>target_domain\<close> is; they form the configuration of a run.
\<close>

datatype 'h pc =
    Pending
  | Claimed
  | Extracting "'h list" "(string \<times> string) list"
  | Submitting "(string \<times> string) list" "nat list"
  | Joining "nat list"
  | Done

record 'h task =
  t_url :: string
  t_origin_url :: "string option"
  t_current_depth :: int
  t_pc :: "'h pc"

record config =
  cfg_target_domain :: string
  cfg_max_workers :: int
  cfg_max_depth :: int

record 'h state =
  visited :: "string set"
  broken_links :: "(string \<times> string) set"
  threads :: "'h task list"
  log :: "event list"

definition set_pc :: "nat \<Rightarrow> 'h pc \<Rightarrow> 'h state \<Rightarrow> 'h state" where
  "set_pc i p s = s\<lparr>threads := (threads s)[i := (threads s ! i)\<lparr>t_pc := p\<rparr>]\<rparr>"

definition emit :: "event list \<Rightarrow> 'h state \<Rightarrow> 'h state" where
  "emit evs s = s\<lparr>log := log s @ evs\<rparr>"

text \<open>\<^verbatim>\<open>origin_url or url\<close>: \<open>None\<close> and the empty string both count as false.\<close>

definition origin_or :: "string option \<Rightarrow> string \<Rightarrow> string" where
  "origin_or origin_url u =
     (case origin_url of
        None \<Rightarrow> u
      | Some origin \<Rightarrow> if origin = [] then u else origin)"

text \<open>
  The block under \<open>broken_links_lock\<close>: \<^verbatim>\<open>broken_links.add((origin, detail))\<close> and
  \<^verbatim>\<open>write_broken_link_to_file(origin, detail)\<close>.
\<close>

definition record_broken :: "string \<Rightarrow> string \<Rightarrow> 'h state \<Rightarrow> 'h state" where
  "record_broken origin detail s =
     emit (write_broken_link_to_file origin detail)
       (s\<lparr>broken_links := insert (origin, detail) (broken_links s)\<rparr>)"

text \<open>
  The step of a \<open>Pending\<close> task, the same in both files: the depth test, then the block
  under \<open>visited_lock\<close>.
\<close>

definition claim_step :: "config \<Rightarrow> nat \<Rightarrow> 'h task \<Rightarrow> 'h state \<Rightarrow> 'h state" where
  "claim_step cfg i t s =
     (if t_current_depth t > cfg_max_depth cfg then set_pc i Done s
      else if t_url t \<in> visited s then set_pc i Done s
      else set_pc i Claimed (emit [Claim (t_url t)] (s\<lparr>visited := insert (t_url t) (visited s)\<rparr>)))"

text \<open>
  One turn of the loop over \<open>links_to_crawl\<close>, the same in both files: under
  \<open>visited_lock\<close>, a link not in \<open>visited\<close> is submitted as a new task one level deeper,
  with the page it was found on as its origin. The new task is the last of \<open>threads\<close>.
\<close>

definition submit_step ::
  "nat \<Rightarrow> 'h task \<Rightarrow> (string \<times> string) list \<Rightarrow> nat list \<Rightarrow> 'h state \<Rightarrow> 'h state" where
  "submit_step i t ltc futs s =
     (case ltc of
        [] \<Rightarrow> set_pc i (Joining futs) s
      | (link_url, origin) # rest \<Rightarrow>
          if link_url \<notin> visited s then
            set_pc i (Submitting rest (futs @ [length (threads s)]))
              (s\<lparr>threads := threads s @
                   [\<lparr>t_url = link_url, t_origin_url = Some origin,
                     t_current_depth = t_current_depth t + 1, t_pc = Pending\<rparr>]\<rparr>)
          else set_pc i (Submitting rest futs) s)"

text \<open>
  \<^verbatim>\<open>concurrent.futures.wait(futures)\<close> and the end of the \<^verbatim>\<open>with\<close> block: the task
  goes on once every task it submitted is done, and waits until then.
\<close>

definition join_step :: "nat \<Rightarrow> nat list \<Rightarrow> 'h state \<Rightarrow> 'h state" where
  "join_step i futs s =
     (if list_all (\<lambda>j. t_pc (threads s ! j) = Done) futs then set_pc i Done s else s)"

section \<open>crawl_url of crawler.py\<close>

text \<open>The two \<^verbatim>\<open>except\<close> clauses at the end of \<open>crawl_url\<close> (lines 168 to 178).\<close>

definition on_exception :: "'h task \<Rightarrow> exn \<Rightarrow> 'h state \<Rightarrow> 'h state" where
  "on_exception t e s =
     emit [Print ((if is_RequestException e then ''Error crawling '' else ''Error processing '')
                  @ t_url t @ '': '' @ str_exn e)]
       (record_broken (origin_or (t_origin_url t) (t_url t))
          (t_url t @ '' - Error: '' @ str_exn e) s)"

text \<open>
  Reading an attribute of \<open>response\<close> (the first is \<^verbatim>\<open>response.status_code\<close>, line
  114): on \<open>None\<close> the access raises.
\<close>

definition attribute_access :: "response option \<Rightarrow> exn + response" where
  "attribute_access response =
     (case response of
        None \<Rightarrow> Inl (AttributeError ([CHR 0x27] @ ''NoneType'' @ [CHR 0x27]
                   @ '' object has no attribute '' @ [CHR 0x27] @ ''status_code'' @ [CHR 0x27]))
      | Some r \<Rightarrow> Inr r)"

text \<open>
  What \<open>crawl_url\<close> does with the outcome of \<open>fetch_url_with_retry\<close> (lines 112 to 115
  and 162 to 178).
\<close>

definition after_fetch ::
  "nat \<Rightarrow> string task \<Rightarrow> exn + response option \<Rightarrow> string state \<Rightarrow> string state" where
  "after_fetch i t res s =
     (case res of
        Inl e \<Rightarrow> set_pc i Done (on_exception t e s)
      | Inr response \<Rightarrow>
          (case attribute_access response of
             Inl e \<Rightarrow> set_pc i Done (on_exception t e s)
           | Inr r \<Rightarrow>
               if status_code r = 200 then
                 (case hrefs r of
                    Inl e \<Rightarrow> set_pc i Done (on_exception t e s)
                  | Inr hs \<Rightarrow> set_pc i (Extracting hs []) s)
               else if status_code r \<ge> 400 then
                 set_pc i Done
                   (emit [Print (''Broken link: '' @ t_url t @ '' - Status: ''
                                 @ str_int (status_code r))]
                      (record_broken (origin_or (t_origin_url t) (t_url t))
                         (t_url t @ '' - Status: '' @ str_int (status_code r)) s))
               else set_pc i Done s))"

text \<open>The step of a \<open>Claimed\<close> task: the domain test, then the fetch (lines 104 to 112).\<close>

definition fetch_step ::
  "config \<Rightarrow> world \<Rightarrow> nat \<Rightarrow> string task \<Rightarrow> string state \<Rightarrow> string state" where
  "fetch_step cfg W i t s =
     (if \<not> is_target_domain W (t_url t) (cfg_target_domain cfg) then set_pc i Done s
      else
        (let (res, evs) = fetch_url_with_retry W (t_url t) MAX_RETRIES
         in after_fetch i t res
              (emit ([Print (''Crawling: '' @ t_url t), Fetch (t_url t)] @ evs) s)))"

text \<open>
  One turn of the loop over the links of the page (lines 118 to 137); when the loop is
  over, the \<open>ThreadPoolExecutor\<close> is made, which raises for \<open>max_workers\<close> below 1.
\<close>

definition extract_step ::
  "config \<Rightarrow> world \<Rightarrow> nat \<Rightarrow> string task \<Rightarrow> string list \<Rightarrow> (string \<times> string) list
     \<Rightarrow> string state \<Rightarrow> string state" where
  "extract_step cfg W i t hs ltc s =
     (case hs of
        [] \<Rightarrow>
          if cfg_max_workers cfg \<le> 0
          then set_pc i Done (on_exception t (ValueError ''max_workers must be greater than 0'') s)
          else set_pc i (Submitting ltc []) s
      | href # rest \<Rightarrow>
          if is_mailto_link href then set_pc i (Extracting rest ltc) s
          else if is_tel_link href then set_pc i (Extracting rest ltc) s
          else
            (case urljoin W (t_url t) href of
               Inl e \<Rightarrow> set_pc i Done (on_exception t e s)
             | Inr absolute_url \<Rightarrow>
                 if is_valid_url W absolute_url
                 then set_pc i (Extracting rest (ltc @ [(absolute_url, t_url t)])) s
                 else set_pc i (Extracting rest ltc)
                        (emit [Print (''Invalid URL: '' @ absolute_url)]
                           (record_broken (t_url t) (''Invalid URL: '' @ absolute_url) s))))"

text \<open>One step of task \<open>i\<close>; a task that is done, waiting or not there leaves the state as it is.\<close>

definition crawl_url_step :: "config \<Rightarrow> world \<Rightarrow> nat \<Rightarrow> string state \<Rightarrow> string state" where
  "crawl_url_step cfg W i s =
     (if i < length (threads s) then
        (let t = threads s ! i in
         case t_pc t of
           Pending \<Rightarrow> claim_step cfg i t s
         | Claimed \<Rightarrow> fetch_step cfg W i t s
         | Extracting hs ltc \<Rightarrow> extract_step cfg W i t hs ltc s
         | Submitting ltc futs \<Rightarrow> submit_step i t ltc futs s
         | Joining futs \<Rightarrow> join_step i futs s
         | Done \<Rightarrow> s)
      else s)"

text \<open>
  A run is a schedule: the list of the tasks that take the next step, one after the other.
  Every interleaving of the threads is a schedule; the pools only keep some tasks from
  being scheduled while \<open>max_workers\<close> others of the same pool run, so what holds for
  every schedule holds for every run of the program.
\<close>

fun crawl_run :: "config \<Rightarrow> world \<Rightarrow> nat list \<Rightarrow> string state \<Rightarrow> string state" where
  "crawl_run cfg W [] s = s"
| "crawl_run cfg W (i # sched) s = crawl_run cfg W sched (crawl_url_step cfg W i s)"

text \<open>
  The state at the start of a run: nothing visited, nothing recorded, and the tasks
  given, each by its URL, its origin and its depth. \<open>main\<close> starts with the one task
  \<open>(start_url, None, 0)\<close>.
\<close>

definition initial :: "(string \<times> string option \<times> int) list \<Rightarrow> 'h state" where
  "initial roots =
     \<lparr>visited = {}, broken_links = {},
      threads = map (\<lambda>(u, origin, depth).
                  \<lparr>t_url = u, t_origin_url = origin, t_current_depth = depth, t_pc = Pending\<rparr>) roots,
      log = []\<rparr>"

section \<open>crawl_url of crawler_selenium.py\<close>

text \<open>
  The three \<^verbatim>\<open>except\<close> clauses at the end of \<open>crawl_url\<close> (lines 143 to 159). The
  sleeps of 2 and 0.5 seconds and \<^verbatim>\<open>driver.quit()\<close> leave no entry in the log.
\<close>

definition sel_on_exception :: "'h task \<Rightarrow> exn \<Rightarrow> 'h state \<Rightarrow> 'h state" where
  "sel_on_exception t e s =
     (if is_TimeoutException e then
        emit [Print (''Timeout loading '' @ t_url t)]
          (record_broken (origin_or (t_origin_url t) (t_url t))
             (t_url t @ '' - Error: Page load timeout'') s)
      else
        emit [Print ((if is_WebDriverException e then ''Error crawling '' else ''Error processing '')
                     @ t_url t @ '': '' @ str_exn e)]
          (record_broken (origin_or (t_origin_url t) (t_url t))
             (t_url t @ '' - Error: '' @ str_exn e) s))"

text \<open>The step of a \<open>Claimed\<close> task: the domain test, then the page load (lines 76 to 97).\<close>

definition sel_fetch_step ::
  "world \<Rightarrow> nat \<Rightarrow> (exn + string option) task \<Rightarrow> (exn + string option) state
     \<Rightarrow> (exn + string option) state" where
  "sel_fetch_step W i t s =
     (if \<not> is_rbo_domain W (t_url t) then set_pc i Done s
      else
        (case browser W (t_url t) of
           DriverFailed e \<Rightarrow>
             set_pc i Done (sel_on_exception t e (emit [Print (''Crawling: '' @ t_url t)] s))
         | LoadFailed e \<Rightarrow>
             set_pc i Done
               (sel_on_exception t e (emit [Print (''Crawling: '' @ t_url t), Fetch (t_url t)] s))
         | Loaded links \<Rightarrow>
             set_pc i (Extracting links [])
               (emit [Print (''Crawling: '' @ t_url t), Fetch (t_url t)] s)))"

text \<open>
  One turn of the loop over the links (lines 99 to 119): an exception inside the turn is
  printed and the loop goes on. Only \<open>is_mailto_link\<close> is tested; the file has no
  \<open>is_tel_link\<close>.
\<close>

definition sel_extract_step ::
  "config \<Rightarrow> world \<Rightarrow> nat \<Rightarrow> (exn + string option) task \<Rightarrow> (exn + string option) list
     \<Rightarrow> (string \<times> string) list \<Rightarrow> (exn + string option) state
     \<Rightarrow> (exn + string option) state" where
  "sel_extract_step cfg W i t hs ltc s =
     (case hs of
        [] \<Rightarrow>
          if cfg_max_workers cfg \<le> 0
          then set_pc i Done
                 (sel_on_exception t (ValueError ''max_workers must be greater than 0'') s)
          else set_pc i (Submitting ltc []) s
      | link # rest \<Rightarrow>
          (case link of
             Inl e \<Rightarrow>
               set_pc i (Extracting rest ltc)
                 (emit [Print (''Error processing link: '' @ str_exn e)] s)
           | Inr None \<Rightarrow> set_pc i (Extracting rest ltc) s
           | Inr (Some href) \<Rightarrow>
               if href = [] then set_pc i (Extracting rest ltc) s
               else if is_mailto_link href then set_pc i (Extracting rest ltc) s
               else
                 (case urljoin W (t_url t) href of
                    Inl e \<Rightarrow>
                      set_pc i (Extracting rest ltc)
                        (emit [Print (''Error processing link: '' @ str_exn e)] s)
                  | Inr absolute_url \<Rightarrow>
                      if is_valid_url W absolute_url
                      then set_pc i (Extracting rest (ltc @ [(absolute_url, t_url t)])) s
                      else set_pc i (Extracting rest ltc)
                             (emit [Print (''Invalid URL: '' @ absolute_url)]
                                (record_broken (t_url t) (''Invalid URL: '' @ absolute_url) s)))))"

definition sel_crawl_url_step ::
  "config \<Rightarrow> world \<Rightarrow> nat \<Rightarrow> (exn + string option) state \<Rightarrow> (exn + string option) state" where
  "sel_crawl_url_step cfg W i s =
     (if i < length (threads s) then
        (let t = threads s ! i in
         case t_pc t of
           Pending \<Rightarrow> claim_step cfg i t s
         | Claimed \<Rightarrow> sel_fetch_step W i t s
         | Extracting hs ltc \<Rightarrow> sel_extract_step cfg W i t hs ltc s
         | Submitting ltc futs \<Rightarrow> submit_step i t ltc futs s
         | Joining futs \<Rightarrow> join_step i futs s
         | Done \<Rightarrow> s)
      else s)"

fun sel_crawl_run ::
  "config \<Rightarrow> world \<Rightarrow> nat list \<Rightarrow> (exn + string option) state \<Rightarrow> (exn + string option) state" where
  "sel_crawl_run cfg W [] s = s"
| "sel_crawl_run cfg W (i # sched) s = sel_crawl_run cfg W sched (sel_crawl_url_step cfg W i s)"

section \<open>What a log says\<close>

definition claims :: "event list \<Rightarrow> string list" where
  "claims evs = concat (map (\<lambda>e. case e of Claim u \<Rightarrow> [u] | _ \<Rightarrow> []) evs)"

definition fetches :: "event list \<Rightarrow> string list" where
  "fetches evs = concat (map (\<lambda>e. case e of Fetch u \<Rightarrow> [u] | _ \<Rightarrow> []) evs)"

definition gets :: "event list \<Rightarrow> string list" where
  "gets evs = concat (map (\<lambda>e. case e of Get u \<Rightarrow> [u] | _ \<Rightarrow> []) evs)"

definition sleeps :: "event list \<Rightarrow> int list" where
  "sleeps evs = concat (map (\<lambda>e. case e of Sleep n \<Rightarrow> [n] | _ \<Rightarrow> []) evs)"

definition file_appends :: "event list \<Rightarrow> string list" where
  "file_appends evs = concat (map (\<lambda>e. case e of FileAppend l \<Rightarrow> [l] | _ \<Rightarrow> []) evs)"

definition prints :: "event list \<Rightarrow> string list" where
  "prints evs = concat (map (\<lambda>e. case e of Print l \<Rightarrow> [l] | _ \<Rightarrow> []) evs)"

text \<open>
  In a log, every fetch of a URL comes after a claim of that URL.
\<close>

fun claimed_before_fetched :: "string list \<Rightarrow> event list \<Rightarrow> bool" where
  "claimed_before_fetched seen [] = True"
| "claimed_before_fetched seen (Claim u # evs) = claimed_before_fetched (u # seen) evs"
| "claimed_before_fetched seen (Fetch u # evs) = (u \<in> set seen \<and> claimed_before_fetched seen evs)"
| "claimed_before_fetched seen (e # evs) = claimed_before_fetched seen evs"

section \<open>A small world for the examples\<close>

text \<open>
  The examples below need answers of urllib.parse at a few URLs. \<open>simple_urlparse\<close>
  follows \<^verbatim>\<open>urlsplit\<close> on a URL of printable ASCII characters: the scheme is what
  stands before the first colon when it starts with a letter and consists of letters,
  digits, \<open>+\<close>, \<open>-\<close> and \<open>.\<close>; the network location is what follows \<open>//\<close> up to the
  next \<open>/\<close>, \<open>?\<close> or \<open>#\<close>; a bracket without its partner raises.
  \<open>simple_urljoin\<close> follows \<^verbatim>\<open>urljoin\<close> for a reference with a scheme of its own,
  with a network location, or with an absolute path, and puts any other reference
  behind the last \<open>/\<close> of the base path (no dot segments, queries or fragments).
\<close>

definition is_ascii_alpha :: "char \<Rightarrow> bool" where
  "is_ascii_alpha c =
     (let n = (of_char c :: nat) in (65 \<le> n \<and> n \<le> 90) \<or> (97 \<le> n \<and> n \<le> 122))"

definition is_scheme_char :: "char \<Rightarrow> bool" where
  "is_scheme_char c =
     (let n = (of_char c :: nat)
      in is_ascii_alpha c \<or> (48 \<le> n \<and> n \<le> 57) \<or> c \<in> set ''+-.'')"

definition split_scheme :: "string \<Rightarrow> string \<times> string" where
  "split_scheme u =
     (let pre = takeWhile (\<lambda>c. c \<noteq> CHR '':'') u
      in if length pre < length u \<and> pre \<noteq> [] \<and> is_ascii_alpha (hd pre)
            \<and> list_all is_scheme_char pre
         then (lower pre, drop (length pre + 1) u)
         else ([], u))"

definition split_netloc :: "string \<Rightarrow> string \<times> string" where
  "split_netloc rest =
     (if startswith rest ''//''
      then (takeWhile (\<lambda>c. c \<notin> set ''/?#'') (drop 2 rest),
            dropWhile (\<lambda>c. c \<notin> set ''/?#'') (drop 2 rest))
      else ([], rest))"

definition simple_urlparse :: "string \<Rightarrow> exn + parse_result" where
  "simple_urlparse u =
     (let (sch, rest) = split_scheme u;
          (nl, rest') = split_netloc rest
      in if (CHR ''['' \<in> set nl \<and> CHR '']'' \<notin> set nl) \<or> (CHR '']'' \<in> set nl \<and> CHR ''['' \<notin> set nl)
         then Inl (ValueError ''Invalid IPv6 URL'')
         else Inr \<lparr>scheme = sch, netloc = nl\<rparr>)"

definition uses_relative :: "string list" where
  "uses_relative =
     [[], ''ftp'', ''http'', ''gopher'', ''nntp'', ''imap'', ''wais'', ''file'', ''https'',
      ''shttp'', ''mms'', ''prospero'', ''rtsp'', ''rtsps'', ''rtspu'', ''sftp'', ''svn'',
      ''svn+ssh'', ''ws'', ''wss'']"

definition base_directory :: "string \<Rightarrow> string" where
  "base_directory base =
     (let path = takeWhile (\<lambda>c. c \<notin> set ''?#'') (snd (split_netloc (snd (split_scheme base))))
      in rev (dropWhile (\<lambda>c. c \<noteq> CHR ''/'') (rev path)))"

definition simple_urljoin :: "string \<Rightarrow> string \<Rightarrow> exn + string" where
  "simple_urljoin base u =
     (if base = [] then Inr u
      else if u = [] then Inr base
      else
        (case simple_urlparse base of
           Inl e \<Rightarrow> Inl e
         | Inr b \<Rightarrow>
             (case simple_urlparse u of
                Inl e \<Rightarrow> Inl e
              | Inr p \<Rightarrow>
                  (let sch = (if scheme p = [] then scheme b else scheme p)
                   in if sch \<noteq> scheme b \<or> sch \<notin> set uses_relative then Inr u
                      else if netloc p \<noteq> [] then
                        Inr (if scheme p = [] then sch @ '':'' @ u else u)
                      else if startswith u ''/'' then Inr (sch @ ''://'' @ netloc b @ u)
                      else Inr (sch @ ''://'' @ netloc b
                                @ (if base_directory base = [] then ''/'' else base_directory base)
                                @ u)))))"

text \<open>
  A world is then given by what the server answers (\<open>get\<close>) and what the browser
  shows (\<open>show\<close>).
\<close>

definition simple_world :: "(string \<Rightarrow> nat \<Rightarrow> exn + response) \<Rightarrow> (string \<Rightarrow> page) \<Rightarrow> world" where
  "simple_world get show =
     \<lparr>urlparse = simple_urlparse, urljoin = simple_urljoin, session_get = get, browser = show\<rparr>"

definition no_browser :: "string \<Rightarrow> page" where
  "no_browser u = DriverFailed (WebDriverException ''no browser'')"

definition no_server :: "string \<Rightarrow> nat \<Rightarrow> exn + response" where
  "no_server u k = Inl (RequestException ''no server'')"

definition http_response :: "int \<Rightarrow> string \<Rightarrow> string \<Rightarrow> string list \<Rightarrow> response" where
  "http_response code text u hs =
     \<lparr>status_code = code, reason = text, response_url = u, hrefs = Inr hs\<rparr>"

text \<open>A server whose pages answer 404 at the first request and 200 from the second on.\<close>

definition flaky_server :: "string \<Rightarrow> nat \<Rightarrow> exn + response" where
  "flaky_server u k =
     (if k = 0 then Inr (http_response 404 ''Not Found'' u [])
      else Inr (http_response 200 ''OK'' u []))"

text \<open>
  The configuration of \<open>main\<close> in crawler.py for the start URL \<open>https://ex.test/\<close>:
  the target domain is its network location, five workers, depth 3.
\<close>

definition example_cfg :: config where
  "example_cfg = \<lparr>cfg_target_domain = ''ex.test'', cfg_max_workers = 5, cfg_max_depth = 3\<rparr>"

text \<open>A rendered page with a telephone link and a mail link.\<close>

definition contact_page :: "string \<Rightarrow> page" where
  "contact_page u = Loaded [Inr (Some ''tel:+123''), Inr (Some ''mailto:x@rbo.org.uk'')]"

text \<open>A server whose pages hold the same script link twice; the link has no network location.\<close>

definition script_link_server :: "string \<Rightarrow> nat \<Rightarrow> exn + response" where
  "script_link_server u k =
     Inr (http_response 200 ''OK'' u [''javascript:void(0)'', ''javascript:void(0)''])"

section \<open>The invariant of a run\<close>

text \<open>
  The URLs of the tasks that have claimed their URL and not yet gone on to the domain
  test and the fetch, with multiplicity.
\<close>

definition claimed_urls :: "'h task list \<Rightarrow> string multiset" where
  "claimed_urls ts = mset (map t_url (filter (\<lambda>t. t_pc t = Claimed) ts))"

text \<open>
  What every reachable state satisfies: the claims in the log are pairwise different and
  are exactly the visited URLs, every fetch in the log comes after the claim of its URL,
  and a URL is held by at most one claimed task or fetched at most once, never both, and
  only when visited.
\<close>

definition crawl_invariant :: "'h state \<Rightarrow> bool" where
  "crawl_invariant s \<longleftrightarrow>
     distinct (claims (log s)) \<and> set (claims (log s)) = visited s
     \<and> claimed_before_fetched [] (log s)
     \<and> (\<forall>u. count (claimed_urls (threads s)) u + count (mset (fetches (log s))) u
              \<le> (if u \<in> visited s then 1 else 0))"

section \<open>The page expansion, as the specification words it\<close>







text \<open>A server that answers every request with 404.\<close>

definition missing_server :: "string \<Rightarrow> nat \<Rightarrow> exn + response" where
  "missing_server u k = Inr (http_response 404 ''Not Found'' u [])"

section \<open>Properties of the URL classifier\<close>

lemma startswith_iff: "startswith s p \<longleftrightarrow> (\<exists>post. s = p @ post)"
  unfolding startswith_def
  by (metis append_eq_conv_conj append_take_drop_id)

lemma str_in_iff: "str_in needle hay \<longleftrightarrow> (\<exists>pre post. hay = pre @ needle @ post)"
proof (induction hay)
  case Nil
  then show ?case by auto
next
  case (Cons c cs)
  show ?case
  proof
    assume "str_in needle (c # cs)"
    then consider "startswith (c # cs) needle" | "str_in needle cs" by auto
    then show "\<exists>pre post. c # cs = pre @ needle @ post"
    proof cases
      case 1
      then obtain post where "c # cs = needle @ post" by (auto simp: startswith_iff)
      then have "c # cs = [] @ needle @ post" by simp
      then show ?thesis by blast
    next
      case 2
      then obtain pre post where "cs = pre @ needle @ post" using Cons.IH by auto
      then have "c # cs = (c # pre) @ needle @ post" by simp
      then show ?thesis by blast
    qed
  next
    assume "\<exists>pre post. c # cs = pre @ needle @ post"
    then obtain pre post where eq: "c # cs = pre @ needle @ post" by auto
    show "str_in needle (c # cs)"
    proof (cases pre)
      assume "pre = []"
      then have "startswith (c # cs) needle" using eq by (auto simp: startswith_iff)
      then show ?thesis by simp
    next
      fix a pre' assume "pre = a # pre'"
      then have "cs = pre' @ needle @ post" using eq by simp
      then have "str_in needle cs" using Cons.IH by blast
      then show ?thesis by simp
    qed
  qed
qed

lemmas simple_urllib_defs =
  simple_world_def simple_urlparse_def simple_urljoin_def split_scheme_def split_netloc_def
  base_directory_def uses_relative_def is_ascii_alpha_def is_scheme_char_def lower_def
  lower_char_def startswith_def

text \<open>
  C8. \<open>is_target_domain\<close> is true exactly when the URL parses and the target domain is a
  substring of its network location; \<open>is_rbo_domain\<close> is the same test with the fixed
  domain \<open>rbo.org.uk\<close>; when the parse raises, both return false.
\<close>

theorem is_target_domain_iff_substring_of_netloc:
  "(is_target_domain W u d \<longleftrightarrow>
      (\<exists>parsed. urlparse W u = Inr parsed \<and> (\<exists>pre post. netloc parsed = pre @ d @ post)))
   \<and> (is_rbo_domain W u \<longleftrightarrow>
      (\<exists>parsed. urlparse W u = Inr parsed
         \<and> (\<exists>pre post. netloc parsed = pre @ ''rbo.org.uk'' @ post)))
   \<and> ((\<exists>e. urlparse W u = Inl e) \<longrightarrow> \<not> is_target_domain W u d \<and> \<not> is_rbo_domain W u)"
  by (auto simp: is_target_domain_def is_rbo_domain_def str_in_iff split: sum.splits)

theorem is_target_domain_iff_substring_of_netloc_witness:
  "is_target_domain (simple_world no_server no_browser) ''https://notex.test.evil.org/a'' ''ex.test''
   \<and> is_rbo_domain (simple_world no_server no_browser) ''https://www.rbo.org.uk/''
   \<and> \<not> is_target_domain (simple_world no_server no_browser) ''http://[x'' ''x''
   \<and> \<not> is_rbo_domain (simple_world no_server no_browser) ''http://[x''"
proof -
  let ?W = "simple_world no_server no_browser"
  have a: "urlparse ?W ''https://notex.test.evil.org/a''
             = Inr \<lparr>scheme = ''https'', netloc = ''not'' @ ''ex.test'' @ ''.evil.org''\<rparr>"
    by (simp add: simple_urllib_defs)
  have b: "urlparse ?W ''https://www.rbo.org.uk/''
             = Inr \<lparr>scheme = ''https'', netloc = ''www.'' @ ''rbo.org.uk'' @ []\<rparr>"
    by (simp add: simple_urllib_defs)
  have c: "\<exists>e. urlparse ?W ''http://[x'' = Inl e"
    by (simp add: simple_urllib_defs)
  have "is_target_domain ?W ''https://notex.test.evil.org/a'' ''ex.test''"
    using a is_target_domain_iff_substring_of_netloc
            [of ?W "''https://notex.test.evil.org/a''" "''ex.test''"]
    by (metis parse_result.select_convs(2))
  moreover have "is_rbo_domain ?W ''https://www.rbo.org.uk/''"
    using b is_target_domain_iff_substring_of_netloc [of ?W "''https://www.rbo.org.uk/''" "[]"]
    by (metis parse_result.select_convs(2))
  moreover have "\<not> is_target_domain ?W ''http://[x'' ''x'' \<and> \<not> is_rbo_domain ?W ''http://[x''"
    using c is_target_domain_iff_substring_of_netloc [of ?W "''http://[x''" "''x''"]
    by blast
  ultimately show ?thesis by blast
qed

section \<open>Properties of the fetcher\<close>

lemma fetch_attempts_exhausted:
  "retries \<le> attempt \<Longrightarrow> fetch_attempts W u retries attempt = (Inr None, [])"
  by (subst fetch_attempts.simps) simp

lemma fetch_attempts_not_None:
  "attempt < retries \<Longrightarrow> fst (fetch_attempts W u retries attempt) \<noteq> Inr None"
proof (induction W u retries attempt rule: fetch_attempts.induct)
  case (1 W u retries attempt)
  show ?case
  proof (cases "attempt_get W u attempt")
    case (Inr r)
    then show ?thesis using "1.prems" by (subst fetch_attempts.simps) simp
  next
    case (Inl e)
    show ?thesis
    proof (cases "attempt < retries - 1")
      case True
      then have lt: "attempt + 1 < retries" by simp
      have ih: "fst (fetch_attempts W u retries (attempt + 1)) \<noteq> Inr None"
        if "is_RequestException e"
      proof (cases "is_Timeout e")
        case True
        show ?thesis
          using "1.IH"(1)[OF "1.prems" Inl True \<open>attempt < retries - 1\<close> lt] .
      next
        case False
        show ?thesis
          using "1.IH"(2)[OF "1.prems" Inl False that \<open>attempt < retries - 1\<close> lt] .
      qed
      have "is_Timeout e \<Longrightarrow> is_RequestException e" by (cases e) auto
      then show ?thesis using ih Inl "1.prems" True
        by (subst fetch_attempts.simps) (auto split: prod.splits)
    next
      case False
      then show ?thesis using Inl "1.prems" by (subst fetch_attempts.simps) simp
    qed
  qed
qed

lemma not_Inr_None_cases:
  "x \<noteq> Inr None \<Longrightarrow> (\<exists>e. x = Inl e) \<or> (\<exists>r. x = Inr (Some r))"
  by (cases x) auto

text \<open>
  C9. With \<open>retries\<close> at least 1, \<open>fetch_url_with_retry\<close> raises or returns a response,
  never \<open>None\<close>. With \<open>retries\<close> at most 0 the loop body does not run: the function
  returns \<open>None\<close> and has done nothing. On that value the access
  \<^verbatim>\<open>response.status_code\<close> of the caller raises (an \<open>AttributeError\<close>, which
  \<open>crawl_url\<close> then records like any other exception).
\<close>

theorem fetch_url_with_retry_returns_response_iff_retries_positive:
  "(1 \<le> retries \<longrightarrow>
      (\<exists>e. fst (fetch_url_with_retry W u retries) = Inl e)
      \<or> (\<exists>r. fst (fetch_url_with_retry W u retries) = Inr (Some r)))
   \<and> (retries \<le> 0 \<longrightarrow> fetch_url_with_retry W u retries = (Inr None, []))
   \<and> (\<exists>e. attribute_access None = Inl e
          \<and> after_fetch i t (Inr None) s = set_pc i Done (on_exception t e s))"
proof (intro conjI impI)
  assume "1 \<le> retries"
  then have "fst (fetch_attempts W u retries 0) \<noteq> Inr None"
    by (intro fetch_attempts_not_None) simp
  then show "(\<exists>e. fst (fetch_url_with_retry W u retries) = Inl e)
      \<or> (\<exists>r. fst (fetch_url_with_retry W u retries) = Inr (Some r))"
    unfolding fetch_url_with_retry_def by (rule not_Inr_None_cases)
next
  assume "retries \<le> 0"
  then show "fetch_url_with_retry W u retries = (Inr None, [])"
    unfolding fetch_url_with_retry_def by (rule fetch_attempts_exhausted)
next
  show "\<exists>e. attribute_access None = Inl e
          \<and> after_fetch i t (Inr None) s = set_pc i Done (on_exception t e s)"
    by (simp add: attribute_access_def after_fetch_def)
qed

theorem fetch_url_with_retry_returns_response_iff_retries_positive_witness:
  "((\<exists>e. fst (fetch_url_with_retry (simple_world flaky_server no_browser) ''https://ex.test/b'' 3)
          = Inl e)
     \<or> (\<exists>r. fst (fetch_url_with_retry (simple_world flaky_server no_browser) ''https://ex.test/b'' 3)
          = Inr (Some r)))
   \<and> fst (fetch_url_with_retry (simple_world flaky_server no_browser) ''https://ex.test/b'' 3)
     = Inr (Some (http_response 200 ''OK'' ''https://ex.test/b'' []))
   \<and> fetch_url_with_retry (simple_world flaky_server no_browser) ''https://ex.test/b'' 0
     = (Inr None, [])"
proof -
  let ?W = "simple_world flaky_server no_browser"
  have a: "(\<exists>e. fst (fetch_url_with_retry ?W ''https://ex.test/b'' 3) = Inl e)
     \<or> (\<exists>r. fst (fetch_url_with_retry ?W ''https://ex.test/b'' 3) = Inr (Some r))"
    using fetch_url_with_retry_returns_response_iff_retries_positive
            [of 3 ?W "''https://ex.test/b''"]
    by simp
  have b: "fetch_url_with_retry ?W ''https://ex.test/b'' 0 = (Inr None, [])"
    using fetch_url_with_retry_returns_response_iff_retries_positive
            [of 0 ?W "''https://ex.test/b''"]
    by simp
  have c: "fst (fetch_url_with_retry ?W ''https://ex.test/b'' 3)
     = Inr (Some (http_response 200 ''OK'' ''https://ex.test/b'' []))"
    by (simp add: fetch_url_with_retry_def fetch_attempts.simps attempt_get_def
        simple_world_def flaky_server_def http_response_def raise_for_status_def)
  show ?thesis using a b c by blast
qed

text \<open>
  C1. The claim fails on the code: a response with a status code from 400 to 599 makes
  \<open>raise_for_status\<close> raise inside the \<^verbatim>\<open>try\<close>, the second handler catches the
  \<open>HTTPError\<close>, and the request is repeated after the backoff. Here the server answers
  404 first and 200 then: the fetcher sleeps one second, asks again, and returns the
  second response.
\<close>

theorem fetch_url_with_retry_repeats_after_404:
  "fetch_url_with_retry (simple_world flaky_server no_browser) ''https://ex.test/b'' MAX_RETRIES =
     (Inr (Some (http_response 200 ''OK'' ''https://ex.test/b'' [])),
      [Delay, Get ''https://ex.test/b'',
       Print (''Error for https://ex.test/b: 404 Client Error: Not Found for url: ''
              @ ''https://ex.test/b, retrying in 1 seconds... (Attempt 1/3)''),
       Sleep 1, Delay, Get ''https://ex.test/b''])"
  by (simp add: fetch_url_with_retry_def MAX_RETRIES_def fetch_attempts.simps attempt_get_def
      simple_world_def flaky_server_def http_response_def raise_for_status_def
      error_message_def str_int_def digit_def)

section \<open>Properties of single steps\<close>

lemma set_pc_fields [simp]:
  "visited (set_pc i p s) = visited s"
  "broken_links (set_pc i p s) = broken_links s"
  "log (set_pc i p s) = log s"
  "threads (set_pc i p s) = (threads s)[i := (threads s ! i)\<lparr>t_pc := p\<rparr>]"
  by (simp_all add: set_pc_def)

lemma emit_fields [simp]:
  "visited (emit evs s) = visited s"
  "broken_links (emit evs s) = broken_links s"
  "log (emit evs s) = log s @ evs"
  "threads (emit evs s) = threads s"
  by (simp_all add: emit_def)

lemma record_broken_fields [simp]:
  "visited (record_broken origin detail s) = visited s"
  "broken_links (record_broken origin detail s) = insert (origin, detail) (broken_links s)"
  "log (record_broken origin detail s) = log s @ write_broken_link_to_file origin detail"
  "threads (record_broken origin detail s) = threads s"
  by (simp_all add: record_broken_def)

lemma state_eqI:
  fixes s s' :: "'h state"
  assumes "visited s = visited s'" "broken_links s = broken_links s'"
    "threads s = threads s'" "log s = log s'"
  shows "s = s'"
  using assms by (cases s, cases s') simp

lemma file_appends_simps [simp]:
  "file_appends [] = []"
  "file_appends (xs @ ys) = file_appends xs @ file_appends ys"
  "file_appends (FileAppend l # xs) = l # file_appends xs"
  "file_appends (Print l # xs) = file_appends xs"
  "file_appends (Fetch u # xs) = file_appends xs"
  "file_appends (Claim u # xs) = file_appends xs"
  "file_appends (Get u # xs) = file_appends xs"
  "file_appends (Sleep n # xs) = file_appends xs"
  "file_appends (Delay # xs) = file_appends xs"
  by (simp_all add: file_appends_def)

lemma claims_simps [simp]:
  "claims [] = []"
  "claims (xs @ ys) = claims xs @ claims ys"
  "claims (Claim u # xs) = u # claims xs"
  "claims (Print l # xs) = claims xs"
  "claims (Fetch u # xs) = claims xs"
  "claims (FileAppend l # xs) = claims xs"
  "claims (Get u # xs) = claims xs"
  "claims (Sleep n # xs) = claims xs"
  "claims (Delay # xs) = claims xs"
  by (simp_all add: claims_def)

lemma fetches_simps [simp]:
  "fetches [] = []"
  "fetches (xs @ ys) = fetches xs @ fetches ys"
  "fetches (Fetch u # xs) = u # fetches xs"
  "fetches (Print l # xs) = fetches xs"
  "fetches (Claim u # xs) = fetches xs"
  "fetches (FileAppend l # xs) = fetches xs"
  "fetches (Get u # xs) = fetches xs"
  "fetches (Sleep n # xs) = fetches xs"
  "fetches (Delay # xs) = fetches xs"
  by (simp_all add: fetches_def)

text \<open>The fetcher claims nothing, starts no fetch of its own and writes nothing to the file.\<close>

lemma fetch_attempts_quiet:
  "claims (snd (fetch_attempts W u retries attempt)) = []
   \<and> fetches (snd (fetch_attempts W u retries attempt)) = []
   \<and> file_appends (snd (fetch_attempts W u retries attempt)) = []"
proof (induction W u retries attempt rule: fetch_attempts.induct)
  case (1 W u retries attempt)
  show ?case
  proof (cases "attempt < retries")
    case False
    then show ?thesis by (subst (1 2 3) fetch_attempts.simps) simp
  next
    case lt: True
    show ?thesis
    proof (cases "attempt_get W u attempt")
      case (Inr r)
      then show ?thesis using lt by (subst (1 2 3) fetch_attempts.simps) simp
    next
      case (Inl e)
      show ?thesis
      proof (cases "attempt < retries - 1")
        case False
        then show ?thesis using lt Inl by (subst (1 2 3) fetch_attempts.simps) simp
      next
        case True
        show ?thesis
        proof (cases "is_Timeout e")
          case t: True
          show ?thesis
            using "1.IH"(1)[OF lt Inl t True] lt Inl t True
            by (subst (1 2 3) fetch_attempts.simps) (simp add: split_def Let_def)
        next
          case f: False
          show ?thesis
          proof (cases "is_RequestException e")
            case r: True
            show ?thesis
              using "1.IH"(2)[OF lt Inl f r True] lt Inl f r True
              by (subst (1 2 3) fetch_attempts.simps) (simp add: split_def Let_def)
          next
            case False
            then show ?thesis using lt Inl f by (subst (1 2 3) fetch_attempts.simps) simp
          qed
        qed
      qed
    qed
  qed
qed

lemma fetch_url_with_retry_quiet:
  assumes "fetch_url_with_retry W u retries = (res, evs)"
  shows "claims evs = []" "fetches evs = []" "file_appends evs = []"
  using assms fetch_attempts_quiet [of W u retries 0]
  by (simp_all add: fetch_url_with_retry_def)

text \<open>
  C6. A task whose depth is above \<open>max_depth\<close> only returns, in both files: its step
  leaves \<open>visited\<close>, \<open>broken_links\<close> and the log as they are (no claim, no fetch, no
  record), adds no task, and no later step of the task does anything.
\<close>

theorem task_beyond_max_depth_does_nothing:
  "(i < length (threads s) \<and> t_pc (threads s ! i) = Pending
      \<and> t_current_depth (threads s ! i) > cfg_max_depth cfg \<longrightarrow>
      visited (crawl_url_step cfg W i s) = visited s
      \<and> broken_links (crawl_url_step cfg W i s) = broken_links s
      \<and> log (crawl_url_step cfg W i s) = log s
      \<and> threads (crawl_url_step cfg W i s) = (threads s)[i := (threads s ! i)\<lparr>t_pc := Done\<rparr>]
      \<and> crawl_url_step cfg W i (crawl_url_step cfg W i s) = crawl_url_step cfg W i s)
   \<and> (j < length (threads b) \<and> t_pc (threads b ! j) = Pending
      \<and> t_current_depth (threads b ! j) > cfg_max_depth cfg \<longrightarrow>
      visited (sel_crawl_url_step cfg W j b) = visited b
      \<and> broken_links (sel_crawl_url_step cfg W j b) = broken_links b
      \<and> log (sel_crawl_url_step cfg W j b) = log b
      \<and> threads (sel_crawl_url_step cfg W j b) = (threads b)[j := (threads b ! j)\<lparr>t_pc := Done\<rparr>]
      \<and> sel_crawl_url_step cfg W j (sel_crawl_url_step cfg W j b) = sel_crawl_url_step cfg W j b)"
  by (simp add: crawl_url_step_def sel_crawl_url_step_def claim_step_def Let_def)

theorem task_beyond_max_depth_does_nothing_witness:
  "crawl_url_step example_cfg (simple_world no_server no_browser) 0
     (initial [(''https://ex.test/deep'', Some ''https://ex.test/'', 4)])
   = \<lparr>visited = {}, broken_links = {},
      threads = [\<lparr>t_url = ''https://ex.test/deep'', t_origin_url = Some ''https://ex.test/'',
                 t_current_depth = 4, t_pc = Done\<rparr>],
      log = []\<rparr>
   \<and> sel_crawl_url_step example_cfg (simple_world no_server no_browser) 0
     (initial [(''https://www.rbo.org.uk/deep'', Some ''https://www.rbo.org.uk/'', 4)])
   = \<lparr>visited = {}, broken_links = {},
      threads = [\<lparr>t_url = ''https://www.rbo.org.uk/deep'',
                 t_origin_url = Some ''https://www.rbo.org.uk/'',
                 t_current_depth = 4, t_pc = Done\<rparr>],
      log = []\<rparr>"
proof -
  let ?W = "simple_world no_server no_browser"
  let ?s = "initial [(''https://ex.test/deep'', Some ''https://ex.test/'', 4)] :: string state"
  let ?b = "initial [(''https://www.rbo.org.uk/deep'', Some ''https://www.rbo.org.uk/'', 4)]
              :: (exn + string option) state"
  have pre: "0 < length (threads ?s) \<and> t_pc (threads ?s ! 0) = Pending
      \<and> t_current_depth (threads ?s ! 0) > cfg_max_depth example_cfg"
    "0 < length (threads ?b) \<and> t_pc (threads ?b ! 0) = Pending
      \<and> t_current_depth (threads ?b ! 0) > cfg_max_depth example_cfg"
    by (simp_all add: initial_def example_cfg_def)
  note fact = task_beyond_max_depth_does_nothing [of 0 ?s example_cfg ?W 0 ?b]
  have "crawl_url_step example_cfg ?W 0 ?s
        = \<lparr>visited = {}, broken_links = {},
           threads = [\<lparr>t_url = ''https://ex.test/deep'', t_origin_url = Some ''https://ex.test/'',
                 t_current_depth = 4, t_pc = Done\<rparr>], log = []\<rparr>"
    by (rule state_eqI) (use fact pre in \<open>simp_all add: initial_def\<close>)
  moreover have "sel_crawl_url_step example_cfg ?W 0 ?b
        = \<lparr>visited = {}, broken_links = {},
           threads = [\<lparr>t_url = ''https://www.rbo.org.uk/deep'',
                 t_origin_url = Some ''https://www.rbo.org.uk/'',
                 t_current_depth = 4, t_pc = Done\<rparr>], log = []\<rparr>"
    by (rule state_eqI) (use fact pre in \<open>simp_all add: initial_def\<close>)
  ultimately show ?thesis by simp
qed

text \<open>What one step does, by the place the task has reached.\<close>

lemma step_over_depth:
  "i < length (threads s) \<Longrightarrow> t_pc (threads s ! i) = Pending
   \<Longrightarrow> t_current_depth (threads s ! i) > cfg_max_depth cfg
   \<Longrightarrow> crawl_url_step cfg W i s = set_pc i Done s"
  by (simp add: crawl_url_step_def claim_step_def Let_def)

lemma step_already_visited:
  "i < length (threads s) \<Longrightarrow> t_pc (threads s ! i) = Pending
   \<Longrightarrow> t_url (threads s ! i) \<in> visited s
   \<Longrightarrow> crawl_url_step cfg W i s = set_pc i Done s"
  by (simp add: crawl_url_step_def claim_step_def Let_def)

lemma step_claim:
  "i < length (threads s) \<Longrightarrow> t_pc (threads s ! i) = Pending
   \<Longrightarrow> t_current_depth (threads s ! i) \<le> cfg_max_depth cfg
   \<Longrightarrow> t_url (threads s ! i) \<notin> visited s
   \<Longrightarrow> crawl_url_step cfg W i s
       = set_pc i Claimed (emit [Claim (t_url (threads s ! i))]
            (s\<lparr>visited := insert (t_url (threads s ! i)) (visited s)\<rparr>))"
  by (simp add: crawl_url_step_def claim_step_def Let_def)

lemma step_out_of_domain:
  "i < length (threads s) \<Longrightarrow> t_pc (threads s ! i) = Claimed
   \<Longrightarrow> \<not> is_target_domain W (t_url (threads s ! i)) (cfg_target_domain cfg)
   \<Longrightarrow> crawl_url_step cfg W i s = set_pc i Done s"
  by (simp add: crawl_url_step_def fetch_step_def Let_def)


lemma step_extract:
  "i < length (threads s) \<Longrightarrow> t_pc (threads s ! i) = Extracting hs ltc
   \<Longrightarrow> crawl_url_step cfg W i s = extract_step cfg W i (threads s ! i) hs ltc s"
  by (simp add: crawl_url_step_def Let_def)


lemma sel_step_over_depth:
  "i < length (threads s) \<Longrightarrow> t_pc (threads s ! i) = Pending
   \<Longrightarrow> t_current_depth (threads s ! i) > cfg_max_depth cfg
   \<Longrightarrow> sel_crawl_url_step cfg W i s = set_pc i Done s"
  by (simp add: sel_crawl_url_step_def claim_step_def Let_def)

lemma sel_step_extract:
  "i < length (threads s) \<Longrightarrow> t_pc (threads s ! i) = Extracting hs ltc
   \<Longrightarrow> sel_crawl_url_step cfg W i s = sel_extract_step cfg W i (threads s ! i) hs ltc s"
  by (simp add: sel_crawl_url_step_def Let_def)

lemma step_of_done:
  "i < length (threads s) \<Longrightarrow> t_pc (threads s ! i) = Done \<Longrightarrow> crawl_url_step cfg W i s = s"
  "i < length (threads b) \<Longrightarrow> t_pc (threads b ! i) = Done \<Longrightarrow> sel_crawl_url_step cfg W i b = b"
  by (simp_all add: crawl_url_step_def sel_crawl_url_step_def Let_def)

text \<open>
  C7, as amended. A task of crawler.py that passes the depth test
  (\<open>current_depth \<le> max_depth\<close>): its first step leaves its URL in \<open>visited\<close>, adding it
  (the claim) unless it is there already, in which case the task is done, and changes
  nothing else. Once the task has claimed its URL and the URL is not in the target domain,
  its next step, whatever the other tasks did in between, only returns: no fetch, no
  record, no new task.
\<close>

theorem out_of_domain_task_within_depth_is_claimed_and_dropped:
  "(i < length (threads s) \<and> t_pc (threads s ! i) = Pending
      \<and> t_current_depth (threads s ! i) \<le> cfg_max_depth cfg \<longrightarrow>
      visited (crawl_url_step cfg W i s) = insert (t_url (threads s ! i)) (visited s)
      \<and> broken_links (crawl_url_step cfg W i s) = broken_links s
      \<and> log (crawl_url_step cfg W i s)
          = log s @ (if t_url (threads s ! i) \<in> visited s then [] else [Claim (t_url (threads s ! i))])
      \<and> threads (crawl_url_step cfg W i s)
          = (threads s)[i := (threads s ! i)
               \<lparr>t_pc := if t_url (threads s ! i) \<in> visited s then Done else Claimed\<rparr>])
   \<and> (i < length (threads s') \<and> t_pc (threads s' ! i) = Claimed
      \<and> \<not> is_target_domain W (t_url (threads s' ! i)) (cfg_target_domain cfg) \<longrightarrow>
      visited (crawl_url_step cfg W i s') = visited s'
      \<and> broken_links (crawl_url_step cfg W i s') = broken_links s'
      \<and> log (crawl_url_step cfg W i s') = log s'
      \<and> threads (crawl_url_step cfg W i s') = (threads s')[i := (threads s' ! i)\<lparr>t_pc := Done\<rparr>])"
proof (intro conjI impI)
  assume a: "i < length (threads s) \<and> t_pc (threads s ! i) = Pending
      \<and> t_current_depth (threads s ! i) \<le> cfg_max_depth cfg"
  let ?u = "t_url (threads s ! i)"
  have step: "crawl_url_step cfg W i s
       = (if ?u \<in> visited s then set_pc i Done s
          else set_pc i Claimed (emit [Claim ?u] (s\<lparr>visited := insert ?u (visited s)\<rparr>)))"
  proof (cases "?u \<in> visited s")
    case True
    then have "crawl_url_step cfg W i s = set_pc i Done s"
      using a by (intro step_already_visited) simp_all
    then show ?thesis using True by simp
  next
    case False
    then have "crawl_url_step cfg W i s
       = set_pc i Claimed (emit [Claim ?u] (s\<lparr>visited := insert ?u (visited s)\<rparr>))"
      using a by (intro step_claim) simp_all
    then show ?thesis using False by simp
  qed
  show "visited (crawl_url_step cfg W i s) = insert ?u (visited s)"
    unfolding step by (simp add: insert_absorb)
  show "broken_links (crawl_url_step cfg W i s) = broken_links s"
    unfolding step by simp
  show "log (crawl_url_step cfg W i s) = log s @ (if ?u \<in> visited s then [] else [Claim ?u])"
    unfolding step by simp
  show "threads (crawl_url_step cfg W i s)
          = (threads s)[i := (threads s ! i)\<lparr>t_pc := if ?u \<in> visited s then Done else Claimed\<rparr>]"
    unfolding step by simp
next
  assume a: "i < length (threads s') \<and> t_pc (threads s' ! i) = Claimed
      \<and> \<not> is_target_domain W (t_url (threads s' ! i)) (cfg_target_domain cfg)"
  then have step: "crawl_url_step cfg W i s' = set_pc i Done s'"
    by (intro step_out_of_domain) simp_all
  show "visited (crawl_url_step cfg W i s') = visited s'"
    and "broken_links (crawl_url_step cfg W i s') = broken_links s'"
    and "log (crawl_url_step cfg W i s') = log s'"
    and "threads (crawl_url_step cfg W i s') = (threads s')[i := (threads s' ! i)\<lparr>t_pc := Done\<rparr>]"
    unfolding step by simp_all
qed

theorem out_of_domain_task_within_depth_is_claimed_and_dropped_witness:
  "crawl_run example_cfg (simple_world no_server no_browser) [0, 0]
     (initial [(''https://other.org/'', Some ''https://ex.test/'', 1)])
   = \<lparr>visited = {''https://other.org/''}, broken_links = {},
      threads = [\<lparr>t_url = ''https://other.org/'', t_origin_url = Some ''https://ex.test/'',
                 t_current_depth = 1, t_pc = Done\<rparr>],
      log = [Claim ''https://other.org/'']\<rparr>"
proof -
  let ?W = "simple_world no_server no_browser"
  let ?s = "\<lparr>visited = {}, broken_links = {},
             threads = [\<lparr>t_url = ''https://other.org/'', t_origin_url = Some ''https://ex.test/'',
                         t_current_depth = 1, t_pc = Pending :: string pc\<rparr>],
             log = []\<rparr>"
  let ?s1 = "\<lparr>visited = {''https://other.org/''}, broken_links = {},
              threads = [\<lparr>t_url = ''https://other.org/'', t_origin_url = Some ''https://ex.test/'',
                          t_current_depth = 1, t_pc = Claimed :: string pc\<rparr>],
              log = [Claim ''https://other.org/'']\<rparr>"
  let ?s2 = "\<lparr>visited = {''https://other.org/''}, broken_links = {},
              threads = [\<lparr>t_url = ''https://other.org/'', t_origin_url = Some ''https://ex.test/'',
                          t_current_depth = 1, t_pc = Done :: string pc\<rparr>],
              log = [Claim ''https://other.org/'']\<rparr>"
  have init: "initial [(''https://other.org/'', Some ''https://ex.test/'', 1)] = ?s"
    by (simp add: initial_def)
  have dom: "\<not> is_target_domain ?W ''https://other.org/'' (cfg_target_domain example_cfg)"
    by (simp add: is_target_domain_def example_cfg_def simple_urllib_defs)
  note fact = out_of_domain_task_within_depth_is_claimed_and_dropped
                [where i = 0 and s = ?s and cfg = example_cfg and W = ?W and s' = ?s1]
  have first: "crawl_url_step example_cfg ?W 0 ?s = ?s1"
    by (rule state_eqI) (use fact [THEN conjunct1] in \<open>simp_all add: example_cfg_def\<close>)
  have second: "crawl_url_step example_cfg ?W 0 ?s1 = ?s2"
    by (rule state_eqI) (use fact [THEN conjunct2] dom in simp_all)
  show ?thesis
    by (simp only: init crawl_run.simps first second)
qed

text \<open>
  The claim as first worded spoke of every task with a URL outside the target domain. The
  depth test comes first (line 95): such a task at depth 4, the limit being 3, returns
  before \<^verbatim>\<open>visited.add\<close>, and its URL is never claimed. That is the lot of every
  external link found on a page at the depth limit.
\<close>

theorem over_depth_out_of_domain_task_is_never_claimed:
  "\<not> is_target_domain (simple_world no_server no_browser) ''https://other.org/''
        (cfg_target_domain example_cfg)
   \<and> cfg_max_depth example_cfg = 3
   \<and> visited (crawl_run example_cfg (simple_world no_server no_browser) [0, 0]
                (initial [(''https://other.org/'', Some ''https://ex.test/'', 4)])) = {}
   \<and> claims (log (crawl_run example_cfg (simple_world no_server no_browser) [0, 0]
                (initial [(''https://other.org/'', Some ''https://ex.test/'', 4)]))) = []
   \<and> map t_pc (threads (crawl_run example_cfg (simple_world no_server no_browser) [0, 0]
                (initial [(''https://other.org/'', Some ''https://ex.test/'', 4)]))) = [Done]"
  by code_simp

text \<open>
  A response with a status code from 400 to 599 never leaves \<open>fetch_url_with_retry\<close> as
  a response: \<open>raise_for_status\<close> has turned it into an exception. So the branch
  \<^verbatim>\<open>elif response.status_code >= 400\<close> of \<open>crawl_url\<close> (lines 162 to 166), which
  records \<open><url> - Status: <code>\<close>, is reached for no such code.
\<close>

lemma attempt_get_no_error_status:
  "attempt_get W u a = Inr r \<Longrightarrow> status_code r < 400 \<or> 600 \<le> status_code r"
  by (auto simp: attempt_get_def raise_for_status_def split: sum.splits if_splits)

lemma fetch_attempts_no_error_status:
  "fst (fetch_attempts W u retries attempt) = Inr (Some r)
   \<Longrightarrow> status_code r < 400 \<or> 600 \<le> status_code r"
proof (induction W u retries attempt rule: fetch_attempts.induct)
  case (1 W u retries attempt)
  note res = "1.prems"
  show ?case
  proof (cases "attempt < retries")
    case False
    then show ?thesis using res by (subst (asm) fetch_attempts.simps) simp
  next
    case lt: True
    show ?thesis
    proof (cases "attempt_get W u attempt")
      case (Inr r')
      then have "r' = r" using res lt by (subst (asm) fetch_attempts.simps) simp
      then show ?thesis using Inr by (simp add: attempt_get_no_error_status)
    next
      case (Inl e)
      show ?thesis
      proof (cases "attempt < retries - 1")
        case False
        then show ?thesis using res lt Inl
          by (subst (asm) fetch_attempts.simps) (simp split: if_splits)
      next
        case True
        show ?thesis
        proof (cases "is_Timeout e")
          case t: True
          have "fst (fetch_attempts W u retries (attempt + 1)) = Inr (Some r)"
            using res lt Inl t True
            by (subst (asm) fetch_attempts.simps) (simp add: split_def Let_def)
          then show ?thesis by (rule "1.IH"(1)[OF lt Inl t True])
        next
          case f: False
          show ?thesis
          proof (cases "is_RequestException e")
            case r: True
            have "fst (fetch_attempts W u retries (attempt + 1)) = Inr (Some r)"
              using res lt Inl f r True
              by (subst (asm) fetch_attempts.simps) (simp add: split_def Let_def)
            then show ?thesis by (rule "1.IH"(2)[OF lt Inl f r True])
          next
            case False
            then show ?thesis using res lt Inl f
              by (subst (asm) fetch_attempts.simps) simp
          qed
        qed
      qed
    qed
  qed
qed

lemma fetch_url_with_retry_returns_no_error_status:
  "fetch_url_with_retry W u retries = (Inr (Some r), evs)
   \<Longrightarrow> status_code r < 400 \<or> 600 \<le> status_code r"
  using fetch_attempts_no_error_status [of W u retries 0 r]
  by (simp add: fetch_url_with_retry_def)

text \<open>
  C2. The claim fails on the code, for the reason of C1. The task for
  \<open>https://ex.test/b\<close>, found on \<open>https://ex.test/\<close>, meets a server that answers 404 to
  the first request and 200 to the second. The response with status 404 is received, and
  \<open>crawl_url\<close> never sees it: the fetcher asks again, the page comes with 200 and no link,
  and the task ends with nothing in \<open>broken_links\<close> and no line in the file.
\<close>

theorem response_404_then_200_yields_no_record:
  "(case session_get (simple_world flaky_server no_browser) ''https://ex.test/b'' 0 of
      Inl e \<Rightarrow> False
    | Inr r \<Rightarrow> status_code r = 404)
   \<and> gets (log (crawl_run example_cfg (simple_world flaky_server no_browser) [0, 0, 0, 0, 0]
                  (initial [(''https://ex.test/b'', Some ''https://ex.test/'', 1)])))
       = [''https://ex.test/b'', ''https://ex.test/b'']
   \<and> broken_links (crawl_run example_cfg (simple_world flaky_server no_browser) [0, 0, 0, 0, 0]
                  (initial [(''https://ex.test/b'', Some ''https://ex.test/'', 1)])) = {}
   \<and> file_appends (log (crawl_run example_cfg (simple_world flaky_server no_browser)
                  [0, 0, 0, 0, 0]
                  (initial [(''https://ex.test/b'', Some ''https://ex.test/'', 1)]))) = []
   \<and> map t_pc (threads (crawl_run example_cfg (simple_world flaky_server no_browser)
                  [0, 0, 0, 0, 0]
                  (initial [(''https://ex.test/b'', Some ''https://ex.test/'', 1)]))) = [Done]"
  by code_simp

text \<open>
  When the server answers 404 to every request, the page is asked for three times, with
  sleeps of 1 and 2 seconds, and the record that is made comes from the
  \<^verbatim>\<open>except\<close> clause of \<open>crawl_url\<close>: its detail is the message of the exception, not
  \<open><url> - Status: 404\<close>.
\<close>

lemma persistent_404_is_recorded_by_the_except_clause:
  "gets (log (crawl_run example_cfg (simple_world missing_server no_browser) [0, 0]
                  (initial [(''https://ex.test/b'', Some ''https://ex.test/'', 1)])))
       = [''https://ex.test/b'', ''https://ex.test/b'', ''https://ex.test/b'']
   \<and> sleeps (log (crawl_run example_cfg (simple_world missing_server no_browser) [0, 0]
                  (initial [(''https://ex.test/b'', Some ''https://ex.test/'', 1)]))) = [1, 2]
   \<and> broken_links (crawl_run example_cfg (simple_world missing_server no_browser) [0, 0]
                  (initial [(''https://ex.test/b'', Some ''https://ex.test/'', 1)]))
       = {(''https://ex.test/'',
           ''https://ex.test/b - Error: 404 Client Error: Not Found for url: https://ex.test/b'')}
   \<and> map t_pc (threads (crawl_run example_cfg (simple_world missing_server no_browser) [0, 0]
                  (initial [(''https://ex.test/b'', Some ''https://ex.test/'', 1)]))) = [Done]"
  by code_simp

section \<open>Properties of the loop over the links of a page\<close>

text \<open>
  C5, as amended. In crawler.py a link that \<open>is_mailto_link\<close> or \<open>is_tel_link\<close> accepts, in
  crawler_selenium.py a link that \<open>is_mailto_link\<close> accepts, is passed over: the turn of
  the loop changes neither \<open>visited\<close>, \<open>broken_links\<close> nor the log and leaves
  \<open>links_to_crawl\<close> as it is, so the link is never submitted, claimed or fetched. Nothing
  is asked of \<open>urlparse\<close> or \<open>urljoin\<close>: this holds for every domain and validity.
\<close>

theorem mail_and_phone_links_are_passed_over:
  "(i < length (threads s) \<and> t_pc (threads s ! i) = Extracting (href # rest) ltc
      \<and> (is_mailto_link href \<or> is_tel_link href) \<longrightarrow>
      visited (crawl_url_step cfg W i s) = visited s
      \<and> broken_links (crawl_url_step cfg W i s) = broken_links s
      \<and> log (crawl_url_step cfg W i s) = log s
      \<and> threads (crawl_url_step cfg W i s)
          = (threads s)[i := (threads s ! i)\<lparr>t_pc := Extracting rest ltc\<rparr>])
   \<and> (j < length (threads b) \<and> t_pc (threads b ! j) = Extracting (Inr (Some link) # others) found
      \<and> is_mailto_link link \<longrightarrow>
      visited (sel_crawl_url_step cfg W j b) = visited b
      \<and> broken_links (sel_crawl_url_step cfg W j b) = broken_links b
      \<and> log (sel_crawl_url_step cfg W j b) = log b
      \<and> threads (sel_crawl_url_step cfg W j b)
          = (threads b)[j := (threads b ! j)\<lparr>t_pc := Extracting others found\<rparr>])"
proof (intro conjI impI)
  assume a: "i < length (threads s) \<and> t_pc (threads s ! i) = Extracting (href # rest) ltc
      \<and> (is_mailto_link href \<or> is_tel_link href)"
  then have "crawl_url_step cfg W i s = extract_step cfg W i (threads s ! i) (href # rest) ltc s"
    by (intro step_extract) simp_all
  also have "\<dots> = set_pc i (Extracting rest ltc) s"
    using a by (auto simp: extract_step_def)
  finally have step: "crawl_url_step cfg W i s = set_pc i (Extracting rest ltc) s" .
  show "visited (crawl_url_step cfg W i s) = visited s"
    and "broken_links (crawl_url_step cfg W i s) = broken_links s"
    and "log (crawl_url_step cfg W i s) = log s"
    and "threads (crawl_url_step cfg W i s)
          = (threads s)[i := (threads s ! i)\<lparr>t_pc := Extracting rest ltc\<rparr>]"
    unfolding step by simp_all
next
  assume a: "j < length (threads b) \<and> t_pc (threads b ! j)
      = Extracting (Inr (Some link) # others) found \<and> is_mailto_link link"
  then have "sel_crawl_url_step cfg W j b
      = sel_extract_step cfg W j (threads b ! j) (Inr (Some link) # others) found b"
    by (intro sel_step_extract) simp_all
  also have "\<dots> = set_pc j (Extracting others found) b"
    using a by (simp add: sel_extract_step_def)
  finally have step: "sel_crawl_url_step cfg W j b = set_pc j (Extracting others found) b" .
  show "visited (sel_crawl_url_step cfg W j b) = visited b"
    and "broken_links (sel_crawl_url_step cfg W j b) = broken_links b"
    and "log (sel_crawl_url_step cfg W j b) = log b"
    and "threads (sel_crawl_url_step cfg W j b)
          = (threads b)[j := (threads b ! j)\<lparr>t_pc := Extracting others found\<rparr>]"
    unfolding step by simp_all
qed

theorem mail_and_phone_links_are_passed_over_witness:
  "crawl_url_step example_cfg (simple_world no_server no_browser) 0
     \<lparr>visited = {''https://ex.test/''}, broken_links = {},
      threads = [\<lparr>t_url = ''https://ex.test/'', t_origin_url = None, t_current_depth = 0,
                 t_pc = Extracting [''TEL:+123'', ''/a''] []\<rparr>],
      log = []\<rparr>
   = \<lparr>visited = {''https://ex.test/''}, broken_links = {},
      threads = [\<lparr>t_url = ''https://ex.test/'', t_origin_url = None, t_current_depth = 0,
                 t_pc = Extracting [''/a''] []\<rparr>],
      log = []\<rparr>
   \<and> sel_crawl_url_step example_cfg (simple_world no_server no_browser) 0
     \<lparr>visited = {''https://www.rbo.org.uk/''}, broken_links = {},
      threads = [\<lparr>t_url = ''https://www.rbo.org.uk/'', t_origin_url = None, t_current_depth = 0,
                 t_pc = Extracting [Inr (Some ''MailTo:x@rbo.org.uk'')] []\<rparr>],
      log = []\<rparr>
   = \<lparr>visited = {''https://www.rbo.org.uk/''}, broken_links = {},
      threads = [\<lparr>t_url = ''https://www.rbo.org.uk/'', t_origin_url = None, t_current_depth = 0,
                 t_pc = Extracting [] []\<rparr>],
      log = []\<rparr>"
proof -
  let ?W = "simple_world no_server no_browser"
  let ?s = "\<lparr>visited = {''https://ex.test/''}, broken_links = {},
      threads = [\<lparr>t_url = ''https://ex.test/'', t_origin_url = None, t_current_depth = 0,
                 t_pc = Extracting [''TEL:+123'', ''/a''] []\<rparr>],
      log = []\<rparr>"
  let ?b = "\<lparr>visited = {''https://www.rbo.org.uk/''}, broken_links = {},
      threads = [\<lparr>t_url = ''https://www.rbo.org.uk/'', t_origin_url = None, t_current_depth = 0,
                 t_pc = Extracting [Inr (Some ''MailTo:x@rbo.org.uk'')] []\<rparr>],
      log = []\<rparr>"
  have "is_tel_link ''TEL:+123''"
    by code_simp
  then have tel: "is_mailto_link ''TEL:+123'' \<or> is_tel_link ''TEL:+123''"
    by simp
  have mail: "is_mailto_link ''MailTo:x@rbo.org.uk''"
    by code_simp
  note fact = mail_and_phone_links_are_passed_over
    [where i = 0 and s = ?s and href = "''TEL:+123''" and rest = "[''/a'']" and ltc = "[]"
       and j = 0 and b = ?b and link = "''MailTo:x@rbo.org.uk''" and others = "[]"
       and found = "[]" and cfg = example_cfg and W = ?W]
  have one: "crawl_url_step example_cfg ?W 0 ?s
      = \<lparr>visited = {''https://ex.test/''}, broken_links = {},
      threads = [\<lparr>t_url = ''https://ex.test/'', t_origin_url = None, t_current_depth = 0,
                 t_pc = Extracting [''/a''] []\<rparr>],
      log = []\<rparr>"
    by (rule state_eqI) (use fact [THEN conjunct1] tel in simp_all)
  have two: "sel_crawl_url_step example_cfg ?W 0 ?b
      = \<lparr>visited = {''https://www.rbo.org.uk/''}, broken_links = {},
      threads = [\<lparr>t_url = ''https://www.rbo.org.uk/'', t_origin_url = None, t_current_depth = 0,
                 t_pc = Extracting [] []\<rparr>],
      log = []\<rparr>"
    by (rule state_eqI) (use fact [THEN conjunct2] mail in simp_all)
  show ?thesis by (intro conjI one two)
qed

text \<open>
  C5 as stated fails for the browser variant: crawler_selenium.py has no test for
  \<open>tel:\<close> links. The telephone link of the page is resolved, found to have no network
  location, and recorded as broken.
\<close>

theorem selenium_records_phone_link_as_broken:
  "is_tel_link ''tel:+123''
   \<and> broken_links (sel_crawl_run example_cfg (simple_world no_server contact_page) [0, 0, 0]
        (initial [(''https://www.rbo.org.uk/'', None, 0)]))
     = {(''https://www.rbo.org.uk/'', ''Invalid URL: tel:+123'')}"
  by code_simp

lemma prints_simps [simp]:
  "prints [] = []"
  "prints (xs @ ys) = prints xs @ prints ys"
  "prints (Print l # xs) = l # prints xs"
  "prints (FileAppend l # xs) = prints xs"
  "prints (Fetch u # xs) = prints xs"
  "prints (Claim u # xs) = prints xs"
  "prints (Get u # xs) = prints xs"
  "prints (Sleep n # xs) = prints xs"
  "prints (Delay # xs) = prints xs"
  by (simp_all add: prints_def)

lemma extract_invalid_link:
  assumes "i < length (threads s)"
    and "t_pc (threads s ! i) = Extracting (href # rest) ltc"
    and "\<not> is_mailto_link href" and "\<not> is_tel_link href"
    and "urljoin W (t_url (threads s ! i)) href = Inr absolute_url"
    and "\<not> is_valid_url W absolute_url"
  shows "crawl_url_step cfg W i s
      = set_pc i (Extracting rest ltc)
          (emit [Print (''Invalid URL: '' @ absolute_url)]
             (record_broken (t_url (threads s ! i)) (''Invalid URL: '' @ absolute_url) s))"
proof -
  have "crawl_url_step cfg W i s = extract_step cfg W i (threads s ! i) (href # rest) ltc s"
    using assms(1,2) by (rule step_extract)
  also have "\<dots> = set_pc i (Extracting rest ltc)
          (emit [Print (''Invalid URL: '' @ absolute_url)]
             (record_broken (t_url (threads s ! i)) (''Invalid URL: '' @ absolute_url) s))"
    using assms(3-6) by (simp add: extract_step_def)
  finally show ?thesis .
qed



text \<open>
  C10. A page of crawler.py that holds the same link twice, the link resolving to an
  invalid URL: the two turns of the loop append the line to the file twice and print it
  twice, while \<open>broken_links\<close>, a set, gains the one pair (the second
  \<^verbatim>\<open>broken_links.add\<close> adds nothing). The write is not conditional on the pair being new.
\<close>

theorem repeated_invalid_link_is_written_twice_and_recorded_once:
  assumes "i < length (threads s)"
    and "t_pc (threads s ! i) = Extracting (href # href # rest) ltc"
    and "\<not> is_mailto_link href" and "\<not> is_tel_link href"
    and "urljoin W (t_url (threads s ! i)) href = Inr absolute_url"
    and "\<not> is_valid_url W absolute_url"
  shows "file_appends (log (crawl_url_step cfg W i (crawl_url_step cfg W i s)))
           = file_appends (log s)
             @ [''{'' @ t_url (threads s ! i) @ '' >> '' @ (''Invalid URL: '' @ absolute_url)
                  @ ''}'' @ [CHR 0x0A],
                ''{'' @ t_url (threads s ! i) @ '' >> '' @ (''Invalid URL: '' @ absolute_url)
                  @ ''}'' @ [CHR 0x0A]]
      \<and> prints (log (crawl_url_step cfg W i (crawl_url_step cfg W i s)))
           = prints (log s)
             @ [''{'' @ t_url (threads s ! i) @ '' >> '' @ (''Invalid URL: '' @ absolute_url) @ ''}'',
                ''Invalid URL: '' @ absolute_url,
                ''{'' @ t_url (threads s ! i) @ '' >> '' @ (''Invalid URL: '' @ absolute_url) @ ''}'',
                ''Invalid URL: '' @ absolute_url]
      \<and> broken_links (crawl_url_step cfg W i (crawl_url_step cfg W i s))
           = insert (t_url (threads s ! i), ''Invalid URL: '' @ absolute_url) (broken_links s)"
proof -
  let ?u = "t_url (threads s ! i)"
  let ?d = "''Invalid URL: '' @ absolute_url"
  let ?s1 = "crawl_url_step cfg W i s"
  have one: "?s1 = set_pc i (Extracting (href # rest) ltc)
          (emit [Print ?d] (record_broken ?u ?d s))"
    using assms by (rule extract_invalid_link)
  have len: "i < length (threads ?s1)" and pc: "t_pc (threads ?s1 ! i) = Extracting (href # rest) ltc"
    and url: "t_url (threads ?s1 ! i) = ?u"
    unfolding one using assms(1) by simp_all
  have two: "crawl_url_step cfg W i ?s1 = set_pc i (Extracting rest ltc)
          (emit [Print ?d] (record_broken ?u ?d ?s1))"
    using extract_invalid_link [OF len pc assms(3,4) _ assms(6)] assms(5) unfolding url by simp
  have f: "file_appends (log (crawl_url_step cfg W i ?s1))
      = file_appends (log s) @ [''{'' @ ?u @ '' >> '' @ ?d @ ''}'' @ [CHR 0x0A],
                                 ''{'' @ ?u @ '' >> '' @ ?d @ ''}'' @ [CHR 0x0A]]"
    unfolding two by (subst one) (simp add: write_broken_link_to_file_def)
  have p: "prints (log (crawl_url_step cfg W i ?s1))
      = prints (log s) @ [''{'' @ ?u @ '' >> '' @ ?d @ ''}'', ?d, ''{'' @ ?u @ '' >> '' @ ?d @ ''}'', ?d]"
    unfolding two by (subst one) (simp add: write_broken_link_to_file_def)
  have b: "broken_links (crawl_url_step cfg W i ?s1) = insert (?u, ?d) (broken_links s)"
    unfolding two by (subst one) simp
  show ?thesis by (intro conjI f p b)
qed

theorem repeated_invalid_link_is_written_twice_and_recorded_once_witness:
  "file_appends (log (crawl_run example_cfg (simple_world script_link_server no_browser)
       [0, 0, 0, 0] (initial [(''https://ex.test/'', None, 0)])))
     = [''{https://ex.test/ >> Invalid URL: javascript:void(0)}'' @ [CHR 0x0A],
        ''{https://ex.test/ >> Invalid URL: javascript:void(0)}'' @ [CHR 0x0A]]
   \<and> broken_links (crawl_run example_cfg (simple_world script_link_server no_browser)
       [0, 0, 0, 0] (initial [(''https://ex.test/'', None, 0)]))
     = {(''https://ex.test/'', ''Invalid URL: javascript:void(0)'')}
   \<and> card (broken_links (crawl_run example_cfg (simple_world script_link_server no_browser)
       [0, 0, 0, 0] (initial [(''https://ex.test/'', None, 0)]))) = 1"
proof -
  let ?W = "simple_world script_link_server no_browser"
  let ?s = "crawl_run example_cfg ?W [0, 0] (initial [(''https://ex.test/'', None, 0)])"
  have h1: "0 < length (threads ?s)"
    and h2: "t_pc (threads ?s ! 0)
               = Extracting (''javascript:void(0)'' # ''javascript:void(0)'' # []) []"
    and h3: "\<not> is_mailto_link ''javascript:void(0)''"
    and h4: "\<not> is_tel_link ''javascript:void(0)''"
    and h5: "urljoin ?W (t_url (threads ?s ! 0)) ''javascript:void(0)'' = Inr ''javascript:void(0)''"
    and h6: "\<not> is_valid_url ?W ''javascript:void(0)''"
    by code_simp+
  have u: "t_url (threads ?s ! 0) = ''https://ex.test/''"
    and f0: "file_appends (log ?s) = []"
    and b0: "broken_links ?s = {}"
    by code_simp+
  have run: "crawl_run example_cfg ?W [0, 0, 0, 0] (initial [(''https://ex.test/'', None, 0)])
      = crawl_url_step example_cfg ?W 0 (crawl_url_step example_cfg ?W 0 ?s)"
    by (simp only: crawl_run.simps)
  note fact = repeated_invalid_link_is_written_twice_and_recorded_once
                [where cfg = example_cfg, OF h1 h2 h3 h4 h5 h6]
  have f: "file_appends (log (crawl_run example_cfg ?W [0, 0, 0, 0]
              (initial [(''https://ex.test/'', None, 0)])))
     = [''{https://ex.test/ >> Invalid URL: javascript:void(0)}'' @ [CHR 0x0A],
        ''{https://ex.test/ >> Invalid URL: javascript:void(0)}'' @ [CHR 0x0A]]"
    unfolding run using fact [THEN conjunct1] unfolding u f0 by simp
  have b: "broken_links (crawl_run example_cfg ?W [0, 0, 0, 0]
              (initial [(''https://ex.test/'', None, 0)]))
     = {(''https://ex.test/'', ''Invalid URL: javascript:void(0)'')}"
    unfolding run using fact [THEN conjunct2, THEN conjunct2] unfolding u b0 by simp
  have c: "card (broken_links (crawl_run example_cfg ?W [0, 0, 0, 0]
              (initial [(''https://ex.test/'', None, 0)]))) = 1"
    unfolding b by simp
  show ?thesis by (intro conjI f b c)
qed

section \<open>Properties of whole runs\<close>

lemma claimed_urls_append_pending [simp]:
  "t_pc t = Pending \<Longrightarrow> claimed_urls (ts @ [t]) = claimed_urls ts"
  by (simp add: claimed_urls_def)

lemma claimed_urls_update:
  assumes "i < length ts"
  shows "claimed_urls (ts[i := (ts ! i)\<lparr>t_pc := p\<rparr>])
     = (if p = Claimed then {#t_url (ts ! i)#} else {#})
       + (claimed_urls ts - (if t_pc (ts ! i) = Claimed then {#t_url (ts ! i)#} else {#}))"
  using assms
proof (induction ts arbitrary: i)
  case Nil
  then show ?case by simp
next
  case (Cons t ts)
  show ?case
  proof (cases i)
    case 0
    then show ?thesis by (simp add: claimed_urls_def)
  next
    case (Suc k)
    then have k: "k < length ts" using Cons.prems by simp
    have ih: "claimed_urls (ts[k := (ts ! k)\<lparr>t_pc := p\<rparr>])
       = (if p = Claimed then {#t_url (ts ! k)#} else {#})
         + (claimed_urls ts - (if t_pc (ts ! k) = Claimed then {#t_url (ts ! k)#} else {#}))"
      using Cons.IH [OF k] .
    have mem: "t_pc (ts ! k) = Claimed \<Longrightarrow> t_url (ts ! k) \<in># claimed_urls ts"
      using k by (auto simp: claimed_urls_def intro!: image_eqI [where x = "ts ! k"])
    have split: "claimed_urls (t # xs) = (if t_pc t = Claimed then {#t_url t#} else {#}) + claimed_urls xs"
      for xs
      by (simp add: claimed_urls_def)
    show ?thesis
      using Suc ih mem by (auto simp: split)
  qed
qed

lemma claimed_urls_member:
  "i < length ts \<Longrightarrow> t_pc (ts ! i) = Claimed \<Longrightarrow> t_url (ts ! i) \<in># claimed_urls ts"
  by (auto simp: claimed_urls_def intro!: image_eqI [where x = "ts ! i"])

lemma cbf_append:
  "claimed_before_fetched seen (xs @ ys)
     = (claimed_before_fetched seen xs \<and> claimed_before_fetched (rev (claims xs) @ seen) ys)"
proof (induction xs arbitrary: seen)
  case Nil
  then show ?case by simp
next
  case (Cons e xs)
  then show ?case by (cases e) simp_all
qed

lemma cbf_if_subset:
  "set (fetches ys) \<subseteq> set seen \<Longrightarrow> claimed_before_fetched seen ys"
proof (induction ys arbitrary: seen)
  case Nil
  then show ?case by simp
next
  case (Cons e ys)
  show ?case
  proof (cases e)
    case (Claim u)
    have "set (fetches ys) \<subseteq> set (u # seen)"
      using Cons.prems Claim by auto
    then show ?thesis using Claim Cons.IH by simp
  qed (use Cons in auto)
qed

lemma cbf_extend:
  assumes "claimed_before_fetched [] xs" and "set (fetches ys) \<subseteq> set (claims xs)"
  shows "claimed_before_fetched [] (xs @ ys)"
  using assms by (simp add: cbf_append cbf_if_subset)

lemma invariant_neutral:
  assumes "crawl_invariant s"
    and "visited s' = visited s" and "log s' = log s @ evs"
    and "claims evs = []" and "fetches evs = []"
    and "claimed_urls (threads s') \<subseteq># claimed_urls (threads s)"
  shows "crawl_invariant s'"
proof -
  have fet: "fetches (log s') = fetches (log s)"
    using assms(3,5) by simp
  have "count (claimed_urls (threads s')) u + count (mset (fetches (log s'))) u
              \<le> (if u \<in> visited s' then 1 else 0)" for u
  proof -
    have a: "count (claimed_urls (threads s')) u \<le> count (claimed_urls (threads s)) u"
      using assms(6) by (rule mset_subset_eq_count)
    have b: "count (claimed_urls (threads s)) u + count (mset (fetches (log s))) u
              \<le> (if u \<in> visited s then 1 else 0)"
      using assms(1) unfolding crawl_invariant_def by simp
    show ?thesis
      unfolding fet assms(2) using a b by linarith
  qed
  moreover have "claimed_before_fetched [] (log s')"
    using assms(1,3,5) unfolding crawl_invariant_def by (simp add: cbf_extend)
  ultimately show ?thesis
    using assms(1-4) unfolding crawl_invariant_def by simp
qed

lemma invariant_claim:
  assumes "crawl_invariant s"
    and "u \<notin> visited s"
    and "visited s' = insert u (visited s)" and "log s' = log s @ [Claim u]"
    and "claimed_urls (threads s') = add_mset u (claimed_urls (threads s))"
  shows "crawl_invariant s'"
proof -
  have "count (claimed_urls (threads s)) u + count (mset (fetches (log s))) u
          \<le> (if u \<in> visited s then 1 else 0)"
    using assms(1) unfolding crawl_invariant_def by simp
  then have zero: "count (claimed_urls (threads s)) u + count (mset (fetches (log s))) u = 0"
    using assms(2) by simp
  have "count (claimed_urls (threads s')) v + count (mset (fetches (log s'))) v
              \<le> (if v \<in> visited s' then 1 else 0)" for v
  proof (cases "v = u")
    case True
    then show ?thesis using zero assms(3-5) by simp
  next
    case False
    then show ?thesis using assms(1,3-5) unfolding crawl_invariant_def by simp
  qed
  moreover have "claimed_before_fetched [] (log s')"
    using assms(1,4) unfolding crawl_invariant_def by (simp add: cbf_extend)
  ultimately show ?thesis
    using assms(1-4) unfolding crawl_invariant_def by simp
qed

lemma invariant_fetch:
  assumes "crawl_invariant s"
    and "u \<in># claimed_urls (threads s)"
    and "visited s' = visited s" and "log s' = log s @ evs"
    and "claims evs = []" and "fetches evs = [u]"
    and "claimed_urls (threads s') = claimed_urls (threads s) - {#u#}"
  shows "crawl_invariant s'"
proof -
  have pos: "count (claimed_urls (threads s)) u \<ge> 1"
    using assms(2) by (simp add: Suc_le_eq)
  have u: "u \<in> visited s"
  proof (rule ccontr)
    assume no: "u \<notin> visited s"
    have "count (claimed_urls (threads s)) u + count (mset (fetches (log s))) u
            \<le> (if u \<in> visited s then 1 else 0)"
      using assms(1) unfolding crawl_invariant_def by simp
    then show False using pos no by simp
  qed
  have "count (claimed_urls (threads s')) v + count (mset (fetches (log s'))) v
              \<le> (if v \<in> visited s' then 1 else 0)" for v
  proof -
    have old: "count (claimed_urls (threads s)) v + count (mset (fetches (log s))) v
              \<le> (if v \<in> visited s then 1 else 0)"
      using assms(1) unfolding crawl_invariant_def by simp
    show ?thesis
    proof (cases "v = u")
      case True
      then show ?thesis using old pos assms(3,4,6,7) by simp
    next
      case False
      then show ?thesis using old assms(3,4,6,7) by simp
    qed
  qed
  moreover have "claimed_before_fetched [] (log s')"
    using assms(1,4,6) u unfolding crawl_invariant_def by (simp add: cbf_extend)
  ultimately show ?thesis
    using assms(1,3,4,5) unfolding crawl_invariant_def by simp
qed

lemma quiet_write [simp]:
  "claims (write_broken_link_to_file origin detail) = []"
  "fetches (write_broken_link_to_file origin detail) = []"
  by (simp_all add: write_broken_link_to_file_def)

lemma set_pc_leaves_claimed:
  assumes "i < length ts" and "p \<noteq> Claimed"
  shows "claimed_urls (ts[i := (ts ! i)\<lparr>t_pc := p\<rparr>]) \<subseteq># claimed_urls ts"
  using assms by (simp add: claimed_urls_update)

text \<open>Each kind of step keeps the invariant.\<close>

lemma claim_step_invariant:
  assumes "crawl_invariant s" and "i < length (threads s)" and "t_pc (threads s ! i) = Pending"
  shows "crawl_invariant (claim_step cfg i (threads s ! i) s)"
proof (cases "t_current_depth (threads s ! i) > cfg_max_depth cfg \<or> t_url (threads s ! i) \<in> visited s")
  case True
  then have eq: "claim_step cfg i (threads s ! i) s = set_pc i Done s"
    by (auto simp: claim_step_def)
  show ?thesis
    unfolding eq
    by (rule invariant_neutral [OF assms(1), where evs = "[]"])
       (simp_all add: set_pc_leaves_claimed assms(2))
next
  case False
  then have eq: "claim_step cfg i (threads s ! i) s
      = set_pc i Claimed (emit [Claim (t_url (threads s ! i))]
            (s\<lparr>visited := insert (t_url (threads s ! i)) (visited s)\<rparr>))"
    by (auto simp: claim_step_def)
  show ?thesis
    unfolding eq
    by (rule invariant_claim [OF assms(1), where u = "t_url (threads s ! i)"])
       (use False assms(2,3) in \<open>simp_all add: claimed_urls_update\<close>)
qed

lemma submit_step_invariant:
  assumes "crawl_invariant s" and "i < length (threads s)"
    and "t_pc (threads s ! i) = Submitting ltc futs"
  shows "crawl_invariant (submit_step i (threads s ! i) ltc futs s)"
proof (rule invariant_neutral [OF assms(1), where evs = "[]"])
  show "claimed_urls (threads (submit_step i (threads s ! i) ltc futs s))
          \<subseteq># claimed_urls (threads s)"
    using assms(2,3)
    by (auto simp: submit_step_def set_pc_leaves_claimed list_update_append nth_append split: list.splits)
qed (auto simp: submit_step_def split: list.splits)

lemma join_step_invariant:
  assumes "crawl_invariant s" and "i < length (threads s)"
  shows "crawl_invariant (join_step i futs s)"
proof (cases "list_all (\<lambda>j. t_pc (threads s ! j) = Done) futs")
  case True
  then have eq: "join_step i futs s = set_pc i Done s" by (simp add: join_step_def)
  show ?thesis
    unfolding eq
    by (rule invariant_neutral [OF assms(1), where evs = "[]"])
       (simp_all add: set_pc_leaves_claimed assms(2))
next
  case False
  then show ?thesis using assms(1) by (simp add: join_step_def)
qed

lemma recorded_invariant:
  assumes "crawl_invariant s" and "i < length (threads s)" and "p \<noteq> Claimed"
    and "claims evs = []" and "fetches evs = []"
  shows "crawl_invariant (set_pc i p (emit evs (record_broken origin detail s)))"
  by (rule invariant_neutral
        [OF assms(1), where evs = "write_broken_link_to_file origin detail @ evs"])
     (use assms in \<open>simp_all add: claimed_urls_update\<close>)

lemma moved_invariant:
  assumes "crawl_invariant s" and "i < length (threads s)" and "p \<noteq> Claimed"
    and "claims evs = []" and "fetches evs = []"
  shows "crawl_invariant (set_pc i p (emit evs s))"
  by (rule invariant_neutral [OF assms(1), where evs = evs])
     (use assms in \<open>simp_all add: claimed_urls_update\<close>)

lemma on_exception_invariant:
  assumes "crawl_invariant s" and "i < length (threads s)"
  shows "crawl_invariant (set_pc i Done (on_exception t e s))"
  unfolding on_exception_def
  by (rule recorded_invariant [OF assms]) simp_all

lemma sel_on_exception_invariant:
  assumes "crawl_invariant s" and "i < length (threads s)"
  shows "crawl_invariant (set_pc i Done (sel_on_exception t e s))"
proof (cases "is_TimeoutException e")
  case True
  then show ?thesis
    unfolding sel_on_exception_def using recorded_invariant [OF assms] by simp
next
  case False
  then show ?thesis
    unfolding sel_on_exception_def using recorded_invariant [OF assms] by simp
qed

lemma set_pc_invariant:
  assumes "crawl_invariant s" and "i < length (threads s)" and "p \<noteq> Claimed"
  shows "crawl_invariant (set_pc i p s)"
  by (rule invariant_neutral [OF assms(1), where evs = "[]"])
     (use assms in \<open>simp_all add: claimed_urls_update\<close>)

lemma extract_step_invariant:
  assumes "crawl_invariant s" and "i < length (threads s)"
  shows "crawl_invariant (extract_step cfg W i t hs ltc s)"
proof (cases hs)
  case Nil
  then show ?thesis
    using on_exception_invariant [OF assms] set_pc_invariant [OF assms]
    by (simp add: extract_step_def)
next
  case (Cons href rest)
  show ?thesis
  proof (cases "is_mailto_link href \<or> is_tel_link href")
    case True
    then show ?thesis
      using Cons set_pc_invariant [OF assms] by (auto simp: extract_step_def)
  next
    case False
    show ?thesis
    proof (cases "urljoin W (t_url t) href")
      case (Inl e)
      then show ?thesis
        using Cons False on_exception_invariant [OF assms] by (simp add: extract_step_def)
    next
      case (Inr a)
      then show ?thesis
        using Cons False set_pc_invariant [OF assms] recorded_invariant [OF assms]
        by (simp add: extract_step_def)
    qed
  qed
qed

lemma sel_extract_step_invariant:
  assumes "crawl_invariant s" and "i < length (threads s)"
  shows "crawl_invariant (sel_extract_step cfg W i t hs ltc s)"
proof (cases hs)
  case Nil
  then show ?thesis
    using sel_on_exception_invariant [OF assms] set_pc_invariant [OF assms]
    by (simp add: sel_extract_step_def)
next
  case (Cons link rest)
  show ?thesis
  proof (cases link)
    case (Inl e)
    then show ?thesis
      using Cons moved_invariant [OF assms] by (simp add: sel_extract_step_def)
  next
    case (Inr found)
    show ?thesis
    proof (cases found)
      case None
      then show ?thesis
        using Cons Inr set_pc_invariant [OF assms] by (simp add: sel_extract_step_def)
    next
      case (Some href)
      show ?thesis
      proof (cases "urljoin W (t_url t) href")
        case (Inl e)
        then show ?thesis
          using Cons Inr Some set_pc_invariant [OF assms] moved_invariant [OF assms]
          by (simp add: sel_extract_step_def)
      next
        case (Inr a)
        then show ?thesis
          using Cons \<open>link = Inr found\<close> Some set_pc_invariant [OF assms]
            recorded_invariant [OF assms]
          by (simp add: sel_extract_step_def)
      qed
    qed
  qed
qed

lemma recorded_after_invariant:
  assumes "crawl_invariant s" and "i < length (threads s)" and "p \<noteq> Claimed"
    and "claims evs = []" and "fetches evs = []" and "claims extra = []" and "fetches extra = []"
  shows "crawl_invariant (set_pc i p (emit extra (record_broken origin detail (emit evs s))))"
  by (rule invariant_neutral
        [OF assms(1), where evs = "evs @ write_broken_link_to_file origin detail @ extra"])
     (use assms in \<open>simp_all add: set_pc_leaves_claimed\<close>)

lemma fetched_invariant:
  assumes "crawl_invariant s" and "i < length (threads s)" and "p \<noteq> Claimed"
    and "t_pc (threads s ! i) = Claimed"
    and "claims evs = []" and "fetches evs = [t_url (threads s ! i)]"
  shows "crawl_invariant (set_pc i p (emit evs s))"
  by (rule invariant_fetch
        [OF assms(1), where evs = evs and u = "t_url (threads s ! i)"])
     (use assms in \<open>simp_all add: claimed_urls_update claimed_urls_member\<close>)

lemma fetched_recorded_invariant:
  assumes "crawl_invariant s" and "i < length (threads s)" and "p \<noteq> Claimed"
    and "t_pc (threads s ! i) = Claimed"
    and "claims evs = []" and "fetches evs = [t_url (threads s ! i)]"
    and "claims extra = []" and "fetches extra = []"
  shows "crawl_invariant (set_pc i p (emit extra (record_broken origin detail (emit evs s))))"
  by (rule invariant_fetch
        [OF assms(1), where evs = "evs @ write_broken_link_to_file origin detail @ extra"
           and u = "t_url (threads s ! i)"])
     (use assms in \<open>simp_all add: claimed_urls_update claimed_urls_member\<close>)

lemma after_fetch_invariant:
  assumes "crawl_invariant s" and "i < length (threads s)"
    and "t_pc (threads s ! i) = Claimed"
    and "claims evs = []" and "fetches evs = [t_url (threads s ! i)]"
  shows "crawl_invariant (after_fetch i t res (emit evs s))"
proof -
  note rec = fetched_recorded_invariant [OF assms(1,2) _ assms(3,4,5)]
  note mov = fetched_invariant [OF assms(1,2) _ assms(3,4,5)]
  have exc: "crawl_invariant (set_pc i Done (on_exception t e (emit evs s)))" for e
    unfolding on_exception_def by (rule rec) simp_all
  show ?thesis
  proof (cases res)
    case (Inl e)
    then show ?thesis using exc by (simp add: after_fetch_def)
  next
    case (Inr response)
    show ?thesis
    proof (cases response)
      case None
      then show ?thesis using Inr exc by (simp add: after_fetch_def attribute_access_def)
    next
      case (Some r)
      show ?thesis
      proof (cases "status_code r = 200")
        case True
        show ?thesis
        proof (cases "hrefs r")
          case (Inl e)
          then show ?thesis
            using Inr Some True exc by (simp add: after_fetch_def attribute_access_def)
        next
          case hs: (Inr hs)
          have "crawl_invariant (set_pc i (Extracting hs []) (emit evs s))"
            by (rule mov) simp
          then show ?thesis
            using Inr Some True hs by (simp add: after_fetch_def attribute_access_def)
        qed
      next
        case False
        show ?thesis
        proof (cases "status_code r \<ge> 400")
          case True
          have "crawl_invariant (set_pc i Done
                   (emit [Print (''Broken link: '' @ t_url t @ '' - Status: ''
                                 @ str_int (status_code r))]
                      (record_broken (origin_or (t_origin_url t) (t_url t))
                         (t_url t @ '' - Status: '' @ str_int (status_code r)) (emit evs s))))"
            by (rule rec) simp_all
          then show ?thesis
            using Inr Some False True by (simp add: after_fetch_def attribute_access_def)
        next
          case neither: False
          have "crawl_invariant (set_pc i Done (emit evs s))"
            by (rule mov) simp
          then show ?thesis
            using Inr Some False neither by (simp add: after_fetch_def attribute_access_def)
        qed
      qed
    qed
  qed
qed

lemma fetch_step_invariant:
  assumes "crawl_invariant s" and "i < length (threads s)"
    and "t_pc (threads s ! i) = Claimed"
  shows "crawl_invariant (fetch_step cfg W i (threads s ! i) s)"
proof (cases "is_target_domain W (t_url (threads s ! i)) (cfg_target_domain cfg)")
  case False
  then show ?thesis
    using set_pc_invariant [OF assms(1,2)] by (simp add: fetch_step_def)
next
  case True
  obtain res evs where f: "fetch_url_with_retry W (t_url (threads s ! i)) MAX_RETRIES = (res, evs)"
    by (cases "fetch_url_with_retry W (t_url (threads s ! i)) MAX_RETRIES")
  have q: "claims evs = []" "fetches evs = []"
    using f by (rule fetch_url_with_retry_quiet)+
  have "crawl_invariant (after_fetch i (threads s ! i) res
          (emit ([Print (''Crawling: '' @ t_url (threads s ! i)), Fetch (t_url (threads s ! i))]
                 @ evs) s))"
    by (rule after_fetch_invariant [OF assms]) (simp_all add: q)
  then show ?thesis
    using True f by (simp add: fetch_step_def)
qed

lemma sel_fetch_step_invariant:
  assumes "crawl_invariant s" and "i < length (threads s)"
    and "t_pc (threads s ! i) = Claimed"
  shows "crawl_invariant (sel_fetch_step W i (threads s ! i) s)"
proof (cases "is_rbo_domain W (t_url (threads s ! i))")
  case False
  then show ?thesis
    using set_pc_invariant [OF assms(1,2)] by (simp add: sel_fetch_step_def)
next
  case True
  note rec = fetched_recorded_invariant [OF assms(1,2) _ assms(3)]
  note neu = recorded_after_invariant [OF assms(1,2)]
  show ?thesis
  proof (cases "browser W (t_url (threads s ! i))")
    case (DriverFailed e)
    have "crawl_invariant (set_pc i Done (sel_on_exception (threads s ! i) e
            (emit [Print (''Crawling: '' @ t_url (threads s ! i))] s)))"
      unfolding sel_on_exception_def
      by (cases "is_TimeoutException e") (simp_all add: neu)
    then show ?thesis
      using True DriverFailed by (simp add: sel_fetch_step_def)
  next
    case (LoadFailed e)
    have "crawl_invariant (set_pc i Done (sel_on_exception (threads s ! i) e
            (emit [Print (''Crawling: '' @ t_url (threads s ! i)), Fetch (t_url (threads s ! i))] s)))"
      unfolding sel_on_exception_def
      by (cases "is_TimeoutException e") (simp_all add: rec)
    then show ?thesis
      using True LoadFailed by (simp add: sel_fetch_step_def)
  next
    case (Loaded links)
    have "crawl_invariant (set_pc i (Extracting links [])
            (emit [Print (''Crawling: '' @ t_url (threads s ! i)), Fetch (t_url (threads s ! i))] s))"
      by (rule fetched_invariant [OF assms(1,2) _ assms(3)]) simp_all
    then show ?thesis
      using True Loaded by (simp add: sel_fetch_step_def)
  qed
qed

lemma crawl_url_step_invariant:
  assumes "crawl_invariant s"
  shows "crawl_invariant (crawl_url_step cfg W i s)"
proof (cases "i < length (threads s)")
  case False
  then show ?thesis using assms by (simp add: crawl_url_step_def)
next
  case True
  show ?thesis
  proof (cases "t_pc (threads s ! i)")
    case Pending
    then show ?thesis
      using True claim_step_invariant [OF assms True] by (simp add: crawl_url_step_def)
  next
    case Claimed
    then show ?thesis
      using True fetch_step_invariant [OF assms True] by (simp add: crawl_url_step_def)
  next
    case (Extracting hs ltc)
    then show ?thesis
      using True extract_step_invariant [OF assms True] by (simp add: crawl_url_step_def)
  next
    case (Submitting ltc futs)
    then show ?thesis
      using True submit_step_invariant [OF assms True] by (simp add: crawl_url_step_def)
  next
    case (Joining futs)
    then show ?thesis
      using True join_step_invariant [OF assms True] by (simp add: crawl_url_step_def)
  next
    case Done
    then show ?thesis using True assms by (simp add: crawl_url_step_def)
  qed
qed

lemma sel_crawl_url_step_invariant:
  assumes "crawl_invariant s"
  shows "crawl_invariant (sel_crawl_url_step cfg W i s)"
proof (cases "i < length (threads s)")
  case False
  then show ?thesis using assms by (simp add: sel_crawl_url_step_def)
next
  case True
  show ?thesis
  proof (cases "t_pc (threads s ! i)")
    case Pending
    then show ?thesis
      using True claim_step_invariant [OF assms True] by (simp add: sel_crawl_url_step_def)
  next
    case Claimed
    then show ?thesis
      using True sel_fetch_step_invariant [OF assms True] by (simp add: sel_crawl_url_step_def)
  next
    case (Extracting hs ltc)
    then show ?thesis
      using True sel_extract_step_invariant [OF assms True] by (simp add: sel_crawl_url_step_def)
  next
    case (Submitting ltc futs)
    then show ?thesis
      using True submit_step_invariant [OF assms True] by (simp add: sel_crawl_url_step_def)
  next
    case (Joining futs)
    then show ?thesis
      using True join_step_invariant [OF assms True] by (simp add: sel_crawl_url_step_def)
  next
    case Done
    then show ?thesis using True assms by (simp add: sel_crawl_url_step_def)
  qed
qed

lemma crawl_run_invariant:
  "crawl_invariant s \<Longrightarrow> crawl_invariant (crawl_run cfg W sched s)"
  by (induction sched arbitrary: s) (simp_all add: crawl_url_step_invariant)

lemma sel_crawl_run_invariant:
  "crawl_invariant s \<Longrightarrow> crawl_invariant (sel_crawl_run cfg W sched s)"
  by (induction sched arbitrary: s) (simp_all add: sel_crawl_url_step_invariant)

lemma claimed_urls_none:
  assumes "\<And>t. t \<in> set ts \<Longrightarrow> t_pc t \<noteq> Claimed"
  shows "claimed_urls ts = {#}"
proof -
  have "filter (\<lambda>t. t_pc t = Claimed) ts = []"
    using assms by (induction ts) auto
  then show ?thesis
    unfolding claimed_urls_def by (simp only: list.map mset.simps)
qed

lemma initial_invariant: "crawl_invariant (initial roots)"
proof -
  have none: "claimed_urls (threads (initial roots)) = {#}"
    by (rule claimed_urls_none) (auto simp: initial_def)
  show ?thesis
    unfolding crawl_invariant_def none by (simp add: initial_def)
qed

lemma invariant_fetches_distinct:
  assumes "crawl_invariant s"
  shows "distinct (fetches (log s))"
proof -
  have le: "count (mset (fetches (log s))) u \<le> 1" for u
  proof -
    have "count (claimed_urls (threads s)) u + count (mset (fetches (log s))) u
            \<le> (if u \<in> visited s then 1 else 0)"
      using assms unfolding crawl_invariant_def by simp
    moreover have "(if u \<in> visited s then 1 else 0) \<le> (1::nat)"
      by simp
    ultimately show ?thesis by linarith
  qed
  show ?thesis
    unfolding distinct_count_atmost_1
  proof (intro allI)
    fix a
    show "count (mset (fetches (log s))) a = (if a \<in> set (fetches (log s)) then 1 else 0)"
    proof (cases "a \<in> set (fetches (log s))")
      case True
      then have "0 < count (mset (fetches (log s))) a"
        by simp
      then have "count (mset (fetches (log s))) a = 1"
        using le [of a] by linarith
      then show ?thesis using True by (simp only: if_True)
    next
      case False
      then have "count (mset (fetches (log s))) a = 0"
        by (simp add: count_eq_zero_iff)
      then show ?thesis using False by (simp only: if_False)
    qed
  qed
qed

text \<open>No step takes a URL out of \<open>visited\<close>.\<close>

lemma visited_on_exception [simp]:
  "visited (on_exception t e s) = visited s"
  "visited (sel_on_exception t e s) = visited s"
  by (simp_all add: on_exception_def sel_on_exception_def)

lemma visited_claim_step: "x \<in> visited s \<Longrightarrow> x \<in> visited (claim_step cfg i t s)"
  by (auto simp: claim_step_def)

lemma visited_submit_step [simp]: "visited (submit_step i t ltc futs s) = visited s"
  by (simp add: submit_step_def split: list.splits prod.splits)

lemma visited_join_step [simp]: "visited (join_step i futs s) = visited s"
  by (simp add: join_step_def)

lemma visited_after_fetch [simp]: "visited (after_fetch i t res s) = visited s"
  by (simp add: after_fetch_def attribute_access_def split: sum.splits option.splits)

lemma visited_fetch_step [simp]: "visited (fetch_step cfg W i t s) = visited s"
  by (simp add: fetch_step_def split_def Let_def)

lemma visited_extract_step [simp]: "visited (extract_step cfg W i t hs ltc s) = visited s"
  by (simp add: extract_step_def split: list.splits sum.splits)

lemma visited_sel_fetch_step [simp]: "visited (sel_fetch_step W i t s) = visited s"
  by (simp add: sel_fetch_step_def split: page.splits)

lemma visited_sel_extract_step [simp]: "visited (sel_extract_step cfg W i t hs ltc s) = visited s"
  by (simp add: sel_extract_step_def split: list.splits sum.splits option.splits)

lemma visited_step_mono:
  "visited s \<subseteq> visited (crawl_url_step cfg W i s)"
  "visited b \<subseteq> visited (sel_crawl_url_step cfg W i b)"
  by (auto simp: crawl_url_step_def sel_crawl_url_step_def Let_def
           intro: visited_claim_step split: pc.splits)

lemma visited_run_mono:
  "visited s \<subseteq> visited (crawl_run cfg W sched s)"
proof (induction sched arbitrary: s)
  case Nil
  then show ?case by simp
next
  case (Cons i sched)
  have "visited s \<subseteq> visited (crawl_url_step cfg W i s)"
    by (rule visited_step_mono)
  also have "\<dots> \<subseteq> visited (crawl_run cfg W sched (crawl_url_step cfg W i s))"
    by (rule Cons.IH)
  finally show ?case by simp
qed

lemma visited_sel_run_mono:
  "visited b \<subseteq> visited (sel_crawl_run cfg W sched b)"
proof (induction sched arbitrary: b)
  case Nil
  then show ?case by simp
next
  case (Cons i sched)
  have "visited b \<subseteq> visited (sel_crawl_url_step cfg W i b)"
    by (rule visited_step_mono)
  also have "\<dots> \<subseteq> visited (sel_crawl_run cfg W sched (sel_crawl_url_step cfg W i b))"
    by (rule Cons.IH)
  finally show ?case by simp
qed

lemma crawl_run_append:
  "crawl_run cfg W (sched @ later) s = crawl_run cfg W later (crawl_run cfg W sched s)"
  by (induction sched arbitrary: s) simp_all

lemma sel_crawl_run_append:
  "sel_crawl_run cfg W (sched @ later) b = sel_crawl_run cfg W later (sel_crawl_run cfg W sched b)"
  by (induction sched arbitrary: b) simp_all

text \<open>
  C4. In every run of either program, from any number of tasks submitted at the start and
  under every schedule: the claim of a URL (the \<^verbatim>\<open>visited.add\<close> under \<open>visited_lock\<close>)
  happens at most once, the claimed URLs are exactly the visited ones, every fetch of a
  URL comes after the claim of that URL, no URL is fetched twice, and a URL once in
  \<open>visited\<close> stays there however the run goes on.
\<close>

theorem every_url_is_claimed_before_fetched_and_at_most_once:
  "distinct (claims (log (crawl_run cfg W sched (initial roots))))
   \<and> set (claims (log (crawl_run cfg W sched (initial roots))))
       = visited (crawl_run cfg W sched (initial roots))
   \<and> claimed_before_fetched [] (log (crawl_run cfg W sched (initial roots)))
   \<and> distinct (fetches (log (crawl_run cfg W sched (initial roots))))
   \<and> visited (crawl_run cfg W sched (initial roots))
       \<subseteq> visited (crawl_run cfg W (sched @ later) (initial roots))
   \<and> distinct (claims (log (sel_crawl_run cfg W sched (initial roots))))
   \<and> set (claims (log (sel_crawl_run cfg W sched (initial roots))))
       = visited (sel_crawl_run cfg W sched (initial roots))
   \<and> claimed_before_fetched [] (log (sel_crawl_run cfg W sched (initial roots)))
   \<and> distinct (fetches (log (sel_crawl_run cfg W sched (initial roots))))
   \<and> visited (sel_crawl_run cfg W sched (initial roots))
       \<subseteq> visited (sel_crawl_run cfg W (sched @ later) (initial roots))"
proof -
  have a: "crawl_invariant (crawl_run cfg W sched (initial roots))"
    by (rule crawl_run_invariant) (rule initial_invariant)
  have b: "crawl_invariant (sel_crawl_run cfg W sched (initial roots))"
    by (rule sel_crawl_run_invariant) (rule initial_invariant)
  have a1: "distinct (claims (log (crawl_run cfg W sched (initial roots))))"
    and a2: "set (claims (log (crawl_run cfg W sched (initial roots))))
              = visited (crawl_run cfg W sched (initial roots))"
    and a3: "claimed_before_fetched [] (log (crawl_run cfg W sched (initial roots)))"
    using a unfolding crawl_invariant_def by simp_all
  have b1: "distinct (claims (log (sel_crawl_run cfg W sched (initial roots))))"
    and b2: "set (claims (log (sel_crawl_run cfg W sched (initial roots))))
              = visited (sel_crawl_run cfg W sched (initial roots))"
    and b3: "claimed_before_fetched [] (log (sel_crawl_run cfg W sched (initial roots)))"
    using b unfolding crawl_invariant_def by simp_all
  have a4: "distinct (fetches (log (crawl_run cfg W sched (initial roots))))"
    using a by (rule invariant_fetches_distinct)
  have b4: "distinct (fetches (log (sel_crawl_run cfg W sched (initial roots))))"
    using b by (rule invariant_fetches_distinct)
  have a5: "visited (crawl_run cfg W sched (initial roots))
       \<subseteq> visited (crawl_run cfg W (sched @ later) (initial roots))"
    unfolding crawl_run_append by (rule visited_run_mono)
  have b5: "visited (sel_crawl_run cfg W sched (initial roots))
       \<subseteq> visited (sel_crawl_run cfg W (sched @ later) (initial roots))"
    unfolding sel_crawl_run_append by (rule visited_sel_run_mono)
  show ?thesis
    by (intro conjI a1 a2 a3 a4 a5 b1 b2 b3 b4 b5)
qed

theorem every_url_is_claimed_before_fetched_and_at_most_once_witness:
  "distinct (claims (log (crawl_run example_cfg (simple_world no_server no_browser) [0, 1, 1, 0]
       (initial [(''https://ex.test/'', None, 0), (''https://ex.test/'', None, 0)]))))
   \<and> distinct (fetches (log (crawl_run example_cfg (simple_world no_server no_browser) [0, 1, 1, 0]
       (initial [(''https://ex.test/'', None, 0), (''https://ex.test/'', None, 0)]))))
   \<and> claims (log (crawl_run example_cfg (simple_world no_server no_browser) [0, 1, 1, 0]
       (initial [(''https://ex.test/'', None, 0), (''https://ex.test/'', None, 0)])))
     = [''https://ex.test/'']
   \<and> fetches (log (crawl_run example_cfg (simple_world no_server no_browser) [0, 1, 1, 0]
       (initial [(''https://ex.test/'', None, 0), (''https://ex.test/'', None, 0)])))
     = [''https://ex.test/'']
   \<and> map t_pc (threads (crawl_run example_cfg (simple_world no_server no_browser) [0, 1, 1, 0]
       (initial [(''https://ex.test/'', None, 0), (''https://ex.test/'', None, 0)])))
     = [Done, Done]"
proof -
  let ?S = "crawl_run example_cfg (simple_world no_server no_browser) [0, 1, 1, 0]
       (initial [(''https://ex.test/'', None, 0), (''https://ex.test/'', None, 0)])"
  note fact = every_url_is_claimed_before_fetched_and_at_most_once
    [where cfg = example_cfg and W = "simple_world no_server no_browser"
       and sched = "[0, 1, 1, 0]" and later = "[]"
       and roots = "[(''https://ex.test/'', None, 0), (''https://ex.test/'', None, 0)]"]
  have a: "distinct (claims (log ?S))"
    using fact by (rule conjunct1)
  have b: "distinct (fetches (log ?S))"
    using fact [THEN conjunct2, THEN conjunct2, THEN conjunct2] by (rule conjunct1)
  have c: "claims (log ?S) = [''https://ex.test/'']"
    and d: "fetches (log ?S) = [''https://ex.test/'']"
    and e: "map t_pc (threads ?S) = [Done, Done]"
    by code_simp+
  show ?thesis by (intro conjI a b c d e)
qed

section \<open>The expansion of a page\<close>









end
